theory Spec2Isabelle
  imports Main "HOL-Library.Word"
begin

unbundle bit_operations_syntax

section \<open>The operating system as Os.cpp sees it\<close>

text \<open>
  The POSIX branch of \<^verbatim>\<open>src/quill/src/utility/Os.cpp\<close> talks to the kernel through
  \<^verbatim>\<open>mkstemp\<close>, \<^verbatim>\<open>unlink\<close>, \<^verbatim>\<open>ftruncate\<close>, \<^verbatim>\<open>mmap\<close>, \<^verbatim>\<open>munmap\<close> and \<^verbatim>\<open>close\<close>.
  The kernel is an explicit state that every call takes and returns: the directory
  entries, the inodes with their contents, the table of open descriptors, the virtual
  address space of the process and the log of the calls made so far.  What the kernel
  decides on its own is part of the state as well: \<open>answers\<close> is the list of outcomes it
  will give to the next fallible calls (an exhausted list means success), \<open>suffix\<close> is
  the unique ending \<^verbatim>\<open>mkstemp\<close> puts in place of \<^verbatim>\<open>XXXXXX\<close>, and \<open>region\<close> is the
  address it picks for a mapping requested without \<^verbatim>\<open>MAP_FIXED\<close>.
\<close>

type_synonym size_t = "64 word"
type_synonym addr = "64 word"
type_synonym byte = "8 word"

datatype answer = Succeeds | Fails

datatype prot = PROT_NONE | PROT_READ_WRITE

datatype flag = MAP_FIXED | MAP_PRIVATE | MAP_SHARED | MAP_ANONYMOUS | MAP_POPULATE

text \<open>What stands behind one byte of a mapping: nothing but memory, or a byte of a file
  (inode number and offset in the file).\<close>

datatype backing = Anon | File_at nat nat

text \<open>One mapped byte of the address space: its protection, whether the mapping is
  private (copy on write), its backing and the private copy once it has been written.\<close>

datatype cell = Cell (c_prot: prot) (c_private: bool) (c_backing: backing) (c_copy: "byte option")

datatype syscall =
    Mkstemp string
  | Unlink string
  | Ftruncate int int
  | Mmap addr size_t prot "flag list" int
  | Munmap addr size_t
  | Close int

record inode =
  f_size :: nat
  f_data :: "nat \<Rightarrow> byte"

record os =
  sc_pagesize :: "64 word"
  answers :: "answer list"
  suffix :: string
  region :: addr
  dirents :: "string \<rightharpoonup> nat"
  inodes :: "inode list"
  fds :: "(int \<times> nat) list"
  vm :: "addr \<rightharpoonup> cell"
  trace :: "syscall list"

text \<open>\<^verbatim>\<open>std::runtime_error(msg)\<close>, \<^verbatim>\<open>std::system_error(errno, ...)\<close>, and the trap of
  the integer division \<^verbatim>\<open>capacity % 0\<close>.\<close>

datatype error = Runtime_error string | System_error | Division_by_zero

definition next_answer :: "os \<Rightarrow> answer \<times> os" where
  "next_answer s = (case answers s of [] \<Rightarrow> (Succeeds, s) | a # as \<Rightarrow> (a, s\<lparr>answers := as\<rparr>))"

definition called :: "syscall \<Rightarrow> os \<Rightarrow> os" where
  "called c s = s\<lparr>trace := trace s @ [c]\<rparr>"

text \<open>A new descriptor is the lowest number that is not open.\<close>

definition lowest_free_fd :: "(int \<times> nat) list \<Rightarrow> int" where
  "lowest_free_fd tbl =
     (case find (\<lambda>n. map_of tbl n = None) (map int [0..<Suc (length tbl)]) of
        Some n \<Rightarrow> n
      | None \<Rightarrow> int (Suc (length tbl)))"

text \<open>\<^verbatim>\<open>mkstemp(template)\<close>: creates an empty file under the template's name with the
  last six characters replaced, opens it and returns the descriptor together with the
  name now standing in the caller's buffer; \<open>-1\<close> on failure.\<close>

definition sys_mkstemp :: "string \<Rightarrow> os \<Rightarrow> (int \<times> string) \<times> os" where
  "sys_mkstemp template s =
     (let (a, s1) = next_answer s;
          s2 = called (Mkstemp template) s1;
          path = take (length template - 6) template @ suffix s2
      in if a = Fails \<or> dirents s2 path \<noteq> None then ((- 1, template), s2)
         else
           let fd = lowest_free_fd (fds s2);
               ino = length (inodes s2)
           in ((fd, path),
               s2\<lparr>dirents := (dirents s2)(path \<mapsto> ino),
                  inodes := inodes s2 @ [\<lparr>f_size = 0, f_data = (\<lambda>_. 0)\<rparr>],
                  fds := (fd, ino) # fds s2\<rparr>))"

text \<open>\<^verbatim>\<open>unlink(path)\<close>: removes the name; the inode lives on while it is open or mapped.\<close>

definition sys_unlink :: "string \<Rightarrow> os \<Rightarrow> int \<times> os" where
  "sys_unlink path s =
     (let (a, s1) = next_answer s;
          s2 = called (Unlink path) s1
      in if a = Fails \<or> dirents s2 path = None then (- 1, s2)
         else (0, s2\<lparr>dirents := (dirents s2)(path := None)\<rparr>))"

text \<open>\<^verbatim>\<open>ftruncate(fd, length)\<close>: sets the size of the file; the bytes beyond the old
  size read as zero.  A negative length is refused.\<close>

definition sys_ftruncate :: "int \<Rightarrow> int \<Rightarrow> os \<Rightarrow> int \<times> os" where
  "sys_ftruncate fd len s =
     (let (a, s1) = next_answer s;
          s2 = called (Ftruncate fd len) s1
      in case map_of (fds s2) fd of
           None \<Rightarrow> (- 1, s2)
         | Some ino \<Rightarrow>
             if a = Fails \<or> len < 0 then (- 1, s2)
             else
               let f = inodes s2 ! ino;
                   f' = \<lparr>f_size = nat len,
                         f_data = (\<lambda>off. if off < min (f_size f) (nat len) then f_data f off else 0)\<rparr>
               in (0, s2\<lparr>inodes := (inodes s2)[ino := f']\<rparr>))"

text \<open>\<^verbatim>\<open>mmap(addr, length, prot, flags, fd, 0)\<close>: \<open>None\<close> is \<^verbatim>\<open>MAP_FAILED\<close>.  With
  \<^verbatim>\<open>MAP_FIXED\<close> the mapping is placed at \<open>addr\<close> and replaces what was mapped there;
  otherwise the kernel picks the place.  The bytes of the range \<open>[base, base + length)\<close>
  are the addresses \<open>a\<close> with \<open>a - base < length\<close>.\<close>

definition sys_mmap :: "addr \<Rightarrow> size_t \<Rightarrow> prot \<Rightarrow> flag list \<Rightarrow> int \<Rightarrow> os \<Rightarrow> addr option \<times> os" where
  "sys_mmap address len pr flags fd s =
     (let (a, s1) = next_answer s;
          s2 = called (Mmap address len pr flags fd) s1;
          base = (if MAP_FIXED \<in> set flags then address else region s2);
          private = (MAP_SHARED \<notin> set flags)
      in if a = Fails \<or> len = 0 then (None, s2)
         else if MAP_ANONYMOUS \<in> set flags then
           (Some base,
            s2\<lparr>vm := (\<lambda>a. if a - base < len then Some (Cell pr private Anon None) else vm s2 a)\<rparr>)
         else
           case map_of (fds s2) fd of
             None \<Rightarrow> (None, s2)
           | Some ino \<Rightarrow>
               (Some base,
                s2\<lparr>vm := (\<lambda>a. if a - base < len
                                then Some (Cell pr private (File_at ino (unat (a - base))) None)
                                else vm s2 a)\<rparr>))"

text \<open>\<^verbatim>\<open>munmap(addr, length)\<close>.  The kernel works on whole pages, of the size
  \<^verbatim>\<open>sysconf(_SC_PAGESIZE)\<close> reports.  It refuses the call (\<^verbatim>\<open>EINVAL\<close>), and unmaps
  nothing, when the address is not a multiple of the page size, when the length is zero, or
  when the range, with its length rounded up to whole pages, leaves the address space
  (here all the 64-bit addresses).  Otherwise every page that holds a byte of the range is
  unmapped: the addresses from \<open>addr\<close> up to \<open>addr\<close> plus the rounded length.  Every caller
  in Os.cpp ignores the result, so only the new state is returned; the call is logged
  whether it is refused or not.\<close>

definition page_round_up :: "nat \<Rightarrow> nat \<Rightarrow> nat" where
  "page_round_up page n = ((n + page - 1) div page) * page"

definition munmap_refused :: "os \<Rightarrow> addr \<Rightarrow> size_t \<Rightarrow> bool" where
  "munmap_refused s address len \<longleftrightarrow>
     sc_pagesize s = 0
   \<or> unat address mod unat (sc_pagesize s) \<noteq> 0
   \<or> len = 0
   \<or> 2 ^ 64 < unat address + page_round_up (unat (sc_pagesize s)) (unat len)"

definition sys_munmap :: "addr \<Rightarrow> size_t \<Rightarrow> os \<Rightarrow> os" where
  "sys_munmap address len s =
     (let s1 = called (Munmap address len) s
      in if munmap_refused s1 address len then s1
         else s1\<lparr>vm := (\<lambda>a. if unat (a - address) < page_round_up (unat (sc_pagesize s1)) (unat len)
                               then None else vm s1 a)\<rparr>)"

text \<open>\<^verbatim>\<open>close(fd)\<close>: an open descriptor is released even when the call reports an error
  (as Linux does); a descriptor that is not open gives \<open>-1\<close>.\<close>

definition sys_close :: "int \<Rightarrow> os \<Rightarrow> int \<times> os" where
  "sys_close fd s =
     (let (a, s1) = next_answer s;
          s2 = called (Close fd) s1
      in case map_of (fds s2) fd of
           None \<Rightarrow> (- 1, s2)
         | Some ino \<Rightarrow> (if a = Fails then - 1 else 0, s2\<lparr>fds := filter (\<lambda>p. fst p \<noteq> fd) (fds s2)\<rparr>))"

text \<open>Reading and writing one byte of the address space.  \<open>None\<close> is the fault: the
  address is not mapped, the page is \<^verbatim>\<open>PROT_NONE\<close>, or the file is shorter than the
  offset.  A write through a private mapping goes to the private copy and leaves the
  file alone; a write through a shared mapping goes to the file.  The file of a private
  mapping is not written by anybody else in this development, so keeping the private copy
  per byte rather than per page cannot be observed.\<close>

definition mem_read :: "os \<Rightarrow> addr \<Rightarrow> byte option" where
  "mem_read s a =
     (case vm s a of
        None \<Rightarrow> None
      | Some (Cell pr private back copy) \<Rightarrow>
          if pr = PROT_NONE then None
          else (case copy of
                  Some v \<Rightarrow> Some v
                | None \<Rightarrow>
                    (case back of
                       Anon \<Rightarrow> Some 0
                     | File_at ino off \<Rightarrow>
                         if ino < length (inodes s) \<and> off < f_size (inodes s ! ino)
                         then Some (f_data (inodes s ! ino) off) else None)))"

definition mem_write :: "addr \<Rightarrow> byte \<Rightarrow> os \<Rightarrow> os option" where
  "mem_write a v s =
     (case vm s a of
        None \<Rightarrow> None
      | Some (Cell pr private back copy) \<Rightarrow>
          if pr = PROT_NONE then None
          else (case back of
                  Anon \<Rightarrow> Some (s\<lparr>vm := (vm s)(a \<mapsto> Cell pr private back (Some v))\<rparr>)
                | File_at ino off \<Rightarrow>
                    if \<not> (ino < length (inodes s) \<and> off < f_size (inodes s ! ino)) then None
                    else if private then Some (s\<lparr>vm := (vm s)(a \<mapsto> Cell pr private back (Some v))\<rparr>)
                    else
                      let f = inodes s ! ino
                      in Some (s\<lparr>inodes := (inodes s)[ino := f\<lparr>f_data := (f_data f)(off := v)\<rparr>]\<rparr>)))"

section \<open>Os.cpp\<close>

text \<open>\<^verbatim>\<open>get_page_size\<close>: the value of \<^verbatim>\<open>sysconf(_SC_PAGESIZE)\<close> goes through a
  \<^verbatim>\<open>uint32_t\<close> before it is returned as a \<^verbatim>\<open>size_t\<close>.\<close>

definition get_page_size :: "os \<Rightarrow> size_t" where
  "get_page_size s = ucast (ucast (sc_pagesize s) :: 32 word)"

text \<open>Modelled from the spec: \<^verbatim>\<open>is_pow_of_two\<close> is declared in
  \<^verbatim>\<open>quill/detail/CommonUtilities.h\<close>, which is not among the sources.  The spec asks
  that the capacity "is a power of two"; for a 64-bit \<^verbatim>\<open>size_t\<close> these are
  \<open>2 ^ 0, ..., 2 ^ 63\<close>.\<close>

definition is_pow_of_two :: "size_t \<Rightarrow> bool" where
  "is_pow_of_two n = list_ex (\<lambda>k. n = 2 ^ k) [0..<64]"

text \<open>The flags of the address-space reservation on Linux, where \<^verbatim>\<open>MAP_POPULATE\<close> is
  available.\<close>

definition MMAP_FLAGS :: "flag list" where
  "MMAP_FLAGS = [MAP_PRIVATE, MAP_ANONYMOUS, MAP_POPULATE]"

text \<open>\<^verbatim>\<open>create_memory_mapped_files\<close>, the branch compiled on POSIX systems.  The
  function is given in two parts.  \<open>map_backing_file\<close> is its second half (lines 289-340),
  the code that runs once \<^verbatim>\<open>fd\<close> and \<^verbatim>\<open>chosen_path\<close> are set, where the two
  branches of the \<^verbatim>\<open>if (fd < 0)\<close> of line 272 meet again.  The result is the thrown
  exception or the returned pair; the null pointer is \<open>0\<close>.\<close>

definition map_backing_file :: "size_t \<Rightarrow> int \<Rightarrow> string \<Rightarrow> os \<Rightarrow> (error + addr \<times> addr) \<times> os" where
  "map_backing_file capacity fd chosen_path s2 =
     (let (r3, s3) = sys_unlink chosen_path s2
      in if r3 = - 1 then (Inl System_error, s3)
         else
           let (r4, s4) = sys_ftruncate fd (sint capacity) s3
           in if r4 = - 1 then
                (let (_, s') = sys_close fd s4 in (Inl System_error, s'))
              else
                let (reserved, s5) = sys_mmap 0 (2 * capacity) PROT_NONE MMAP_FLAGS (- 1) s4
                in case reserved of
                     None \<Rightarrow> (let (_, s') = sys_close fd s5 in (Inl System_error, s'))
                   | Some address \<Rightarrow>
                       let (other1, s6) =
                             sys_mmap address capacity PROT_READ_WRITE [MAP_FIXED, MAP_PRIVATE] fd s5
                       in if other1 \<noteq> Some address then
                            (let s' = sys_munmap address (2 * capacity) s6;
                                 (_, s'') = sys_close fd s'
                             in (Inl System_error, s''))
                          else
                            let (other2, s7) =
                                  sys_mmap (address + capacity) capacity PROT_READ_WRITE
                                    [MAP_FIXED, MAP_PRIVATE] fd s6
                            in if other2 \<noteq> Some (address + capacity) then
                                 (let s' = sys_munmap address (2 * capacity) s7;
                                      (_, s'') = sys_close fd s'
                                  in (Inl System_error, s''))
                               else
                                 let (r8, s8) = sys_close fd s7
                                 in if r8 = - 1 then
                                      (Inl System_error, sys_munmap address (2 * capacity) s8)
                                    else (Inr (address, 0), s8))"

text \<open>The first half (lines 180-190 and 265-287): the two checks of the capacity, then
  the temporary file.\<close>

definition create_memory_mapped_files :: "size_t \<Rightarrow> os \<Rightarrow> (error + addr \<times> addr) \<times> os" where
  "create_memory_mapped_files capacity s =
     (if \<not> is_pow_of_two capacity then
        (Inl (Runtime_error ''capacity needs to be power of two''), s)
      else if get_page_size s = 0 then (Inl Division_by_zero, s)
      else if capacity mod get_page_size s \<noteq> 0 then
        (Inl (Runtime_error ''capacity needs to be multiple of page size''), s)
      else
        let ((fd0, shm_path), s1) = sys_mkstemp ''/dev/shm/quill-XXXXXX'' s
        in if fd0 < 0 then
             (let ((fd1, tmp_path), s2) = sys_mkstemp ''/tmp/quill-XXXXXX'' s1
              in if fd1 < 0 then (Inl System_error, s2)
                 else map_backing_file capacity fd1 tmp_path s2)
           else map_backing_file capacity fd0 shm_path s1)"

text \<open>\<^verbatim>\<open>destroy_memory_mapped_files\<close>, POSIX branch (lines 345-359).\<close>

definition destroy_memory_mapped_files :: "addr \<times> addr \<Rightarrow> size_t \<Rightarrow> os \<Rightarrow> os" where
  "destroy_memory_mapped_files pointer_pair capacity s =
     (if fst pointer_pair = 0 then s
      else sys_munmap (fst pointer_pair) (2 * capacity) s)"

text \<open>A process as it stands before the ring is built: 4 KiB pages, the three standard
  descriptors open on a terminal (inode 0), nothing mapped, no call made yet.  The kernel
  will answer the fallible calls with \<open>as\<close>.\<close>

definition boot :: "answer list \<Rightarrow> os" where
  "boot as =
     \<lparr>sc_pagesize = 4096, answers = as, suffix = ''a1B2c3'', region = 0x7f0000000000,
      dirents = Map.empty, inodes = [\<lparr>f_size = 0, f_data = (\<lambda>_. 0)\<rparr>],
      fds = [(0, 0), (1, 0), (2, 0)], vm = Map.empty, trace = []\<rparr>"

text \<open>The calls made between two states, and the address space a successful
  \<open>create_memory_mapped_files\<close> leaves behind: over the old mappings lie the reservation of
  \<open>2 * capacity\<close> bytes at \<open>base\<close> and, on top of it, the two private mappings of the file
  with inode \<open>ino\<close>, each starting at offset 0 of the file.\<close>

definition calls_made :: "os \<Rightarrow> os \<Rightarrow> syscall list" where
  "calls_made s s' = drop (length (trace s)) (trace s')"

definition ring_vm :: "addr \<Rightarrow> size_t \<Rightarrow> nat \<Rightarrow> (addr \<rightharpoonup> cell) \<Rightarrow> (addr \<rightharpoonup> cell)" where
  "ring_vm base capacity ino old =
     (\<lambda>a. if a - (base + capacity) < capacity
          then Some (Cell PROT_READ_WRITE True (File_at ino (unat (a - (base + capacity)))) None)
          else if a - base < capacity
          then Some (Cell PROT_READ_WRITE True (File_at ino (unat (a - base))) None)
          else if a - base < 2 * capacity then Some (Cell PROT_NONE True Anon None)
          else old a)"

section \<open>LogManager.cpp\<close>

text \<open>
  \<open>LogManager::flush\<close> runs on a producer thread while the backend worker runs on its own
  thread.  The two are modelled as one state with a program counter for each thread, and a
  step function for each: a schedule is a list of events, each event lets one thread take
  its next step (a thread that is blocked stays where it is).  The state holds what the
  two threads share: the ring of the calling thread, and the locals of \<open>flush\<close> the
  callback captures by reference (\<^verbatim>\<open>mtx\<close>, \<^verbatim>\<open>cond\<close>, \<^verbatim>\<open>done\<close>).
\<close>

datatype queue_full_policy = Block | Drop

datatype record_kind = Log_event | Flush_ack

text \<open>A frame on the ring: its kind and its total length in bytes.\<close>

datatype ring_record = Frame (kind: record_kind) (total_length: nat)

datatype thread = Producer | Backend

text \<open>Where \<open>flush\<close> stands: before line 17; at the constructor of the \<^verbatim>\<open>unique_lock\<close>
  (line 36); in the loop around \<^verbatim>\<open>try_emplace\<close> (lines 40-44); in \<^verbatim>\<open>cond.wait\<close> with the
  mutex held, about to test the predicate (line 47); in \<^verbatim>\<open>cond.wait\<close> with the mutex
  released, blocked; returned.\<close>

datatype flush_pc = At_entry | At_lock | At_push | At_wait | Asleep | Returned

text \<open>Where the backend stands: between two records, or inside \<^verbatim>\<open>notify_callback\<close>
  (lines 28-34): about to construct the \<^verbatim>\<open>lock_guard\<close>, about to assign \<^verbatim>\<open>done\<close>, about
  to leave the inner block (which releases the mutex), about to call \<^verbatim>\<open>notify_one\<close>.\<close>

datatype backend_pc = Idle | Callback_lock | Callback_set | Callback_unlock | Callback_notify

record log_manager =
  backend_threads :: nat
  policy :: queue_full_policy
  ring :: "ring_record list"
  ring_capacity :: nat
  command_size :: nat
  written :: "ring_record list"
  invoked :: nat
  pc :: flush_pc
  bpc :: backend_pc
  mtx :: "thread option"
  done_flag :: bool
  notified :: bool

datatype event = Flush_step | Backend_step | Spurious_wakeup

text \<open>Modelled from the spec: \<^verbatim>\<open>BackendWorker\<close> (\<^verbatim>\<open>quill/detail/BackendWorker.h\<close>) is
  not among the sources.  The spec has one worker thread that \<open>backend_start\<close> starts, and
  says that \<open>backend_start\<close> is idempotent: \<open>backend_start\<close> followed by \<open>backend_start\<close> leaves
  a single worker running.  So \<open>run\<close> starts a thread unless the worker is running, and
  \<open>is_running\<close> tells whether it is.\<close>

definition is_running :: "log_manager \<Rightarrow> bool" where
  "is_running s = (0 < backend_threads s)"

definition backend_worker_run :: "log_manager \<Rightarrow> log_manager" where
  "backend_worker_run s = (if is_running s then s else s\<lparr>backend_threads := backend_threads s + 1\<rparr>)"

text \<open>\<open>LogManager::start_backend_worker\<close> (line 51).\<close>

definition start_backend_worker :: "log_manager \<Rightarrow> log_manager" where
  "start_backend_worker s = backend_worker_run s"

text \<open>Modelled from the spec: the queue of the thread context (\<^verbatim>\<open>spsc_queue()\<close>) is not
  among the sources.  The spec gives the ring a capacity in bytes, with free space the
  capacity minus the occupancy, and lets a write of \<open>n\<close> bytes succeed exactly when
  \<open>free \<ge> n\<close>; otherwise the ring is full and nothing is written.\<close>

definition ring_free :: "log_manager \<Rightarrow> nat" where
  "ring_free s = ring_capacity s - sum_list (map total_length (ring s))"

definition try_emplace :: "ring_record \<Rightarrow> log_manager \<Rightarrow> bool \<times> log_manager" where
  "try_emplace r s =
     (if total_length r \<le> ring_free s then (True, s\<lparr>ring := ring s @ [r]\<rparr>) else (False, s))"

text \<open>\<open>LogManager::flush\<close> (lines 15-48), one step at a time.  \<^verbatim>\<open>cond.wait(lock, pred)\<close>
  is \<^verbatim>\<open>while (!pred()) wait(lock)\<close>: the predicate is tested with the mutex held, and
  \<^verbatim>\<open>wait(lock)\<close> releases the mutex, blocks until the condition variable is signalled or
  the thread wakes spuriously, and takes the mutex again.  There is no step from the
  blocked state other than this one.  Leaving the function releases the \<^verbatim>\<open>unique_lock\<close>.\<close>

definition flush_step :: "log_manager \<Rightarrow> log_manager" where
  "flush_step s =
     (case pc s of
        At_entry \<Rightarrow>
          if \<not> is_running s then s\<lparr>pc := Returned\<rparr>
          else s\<lparr>pc := At_lock, mtx := None, done_flag := False, notified := False\<rparr>
      | At_lock \<Rightarrow> if mtx s = None then s\<lparr>pc := At_push, mtx := Some Producer\<rparr> else s
      | At_push \<Rightarrow>
          (let (pushed, s') = try_emplace (Frame Flush_ack (command_size s)) s
           in if \<not> pushed then s' else s'\<lparr>pc := At_wait\<rparr>)
      | At_wait \<Rightarrow>
          if done_flag s then s\<lparr>pc := Returned, mtx := None\<rparr>
          else s\<lparr>pc := Asleep, mtx := None, notified := False\<rparr>
      | Asleep \<Rightarrow>
          if notified s \<and> mtx s = None then s\<lparr>pc := At_wait, mtx := Some Producer\<rparr> else s
      | Returned \<Rightarrow> s)"

text \<open>The backend, one step at a time.  Between two records it is modelled from the spec
  (the worker's loop is not among the sources): it takes the record at the front of the
  ring; a log event is written, a flush-acknowledge record has its callback invoked.  The
  four steps of the callback are lines 28-34 of LogManager.cpp.\<close>

definition backend_step :: "log_manager \<Rightarrow> log_manager" where
  "backend_step s =
     (case bpc s of
        Idle \<Rightarrow>
          if \<not> is_running s then s
          else (case ring s of
                  [] \<Rightarrow> s
                | r # rs \<Rightarrow>
                    (case kind r of
                       Log_event \<Rightarrow> s\<lparr>ring := rs, written := written s @ [r]\<rparr>
                     | Flush_ack \<Rightarrow> s\<lparr>ring := rs, invoked := invoked s + 1, bpc := Callback_lock\<rparr>))
      | Callback_lock \<Rightarrow> if mtx s = None then s\<lparr>bpc := Callback_set, mtx := Some Backend\<rparr> else s
      | Callback_set \<Rightarrow> s\<lparr>bpc := Callback_unlock, done_flag := True\<rparr>
      | Callback_unlock \<Rightarrow> s\<lparr>bpc := Callback_notify, mtx := None\<rparr>
      | Callback_notify \<Rightarrow> s\<lparr>bpc := Idle, notified := True\<rparr>)"

definition step :: "event \<Rightarrow> log_manager \<Rightarrow> log_manager" where
  "step e s =
     (case e of
        Flush_step \<Rightarrow> flush_step s
      | Backend_step \<Rightarrow> backend_step s
      | Spurious_wakeup \<Rightarrow> s\<lparr>notified := True\<rparr>)"

fun run :: "event list \<Rightarrow> log_manager \<Rightarrow> log_manager" where
  "run [] s = s"
| "run (e # es) s = run es (step e s)"

text \<open>The number of flush-acknowledge records on a ring, and the state in which \<open>flush\<close>
  is called: the backend is between two records, and no flush-acknowledge record of an
  earlier call is left.\<close>

definition acks :: "ring_record list \<Rightarrow> nat" where
  "acks rs = length (filter (\<lambda>r. kind r = Flush_ack) rs)"

definition at_call :: "log_manager \<Rightarrow> bool" where
  "at_call s \<longleftrightarrow> pc s = At_entry \<and> bpc s = Idle \<and> acks (ring s) = 0 \<and> invoked s = 0"

text \<open>What holds in every state of a call of \<open>flush\<close> made while the backend runs.
  The flush-acknowledge record is on the ring or its callback has been invoked, once the
  loop around \<^verbatim>\<open>try_emplace\<close> is left and not before; the flag is set only by the
  callback; the callback assigns the flag with the mutex held; the producer holds the mutex
  from the constructor of the lock until it blocks.\<close>

definition flush_inv :: "log_manager \<Rightarrow> bool" where
  "flush_inv s \<longleftrightarrow>
     is_running s
   \<and> acks (ring s) + invoked s = (if pc s \<in> {At_entry, At_lock, At_push} then 0 else 1)
   \<and> (bpc s \<noteq> Idle \<longrightarrow> invoked s = 1)
   \<and> (pc s \<noteq> At_entry \<and> done_flag s \<longrightarrow>
        invoked s = 1 \<and> bpc s \<in> {Callback_unlock, Callback_notify, Idle})
   \<and> (pc s = Returned \<longrightarrow> done_flag s)
   \<and> (bpc s \<in> {Callback_set, Callback_unlock} \<longrightarrow> mtx s = Some Backend)
   \<and> (pc s \<in> {At_push, At_wait} \<longrightarrow> mtx s = Some Producer)"

text \<open>A logging process for the examples: a ring of 112 bytes that holds two log events
  of 48 bytes each, so that a command record of 32 bytes does not fit until the backend has
  taken a log event off the ring.\<close>

definition example_manager :: "nat \<Rightarrow> queue_full_policy \<Rightarrow> log_manager" where
  "example_manager n p =
     \<lparr>backend_threads = n, policy = p,
      ring = [Frame Log_event 48, Frame Log_event 48], ring_capacity = 112, command_size = 32,
      written = [], invoked = 0, pc = At_entry, bpc = Idle, mtx = None,
      done_flag = False, notified = False\<rparr>"

section \<open>JsonFileLoggingTest.cpp\<close>

text \<open>The constants of the test case (lines 50-54) and the two strings it expects for
  thread \<open>i\<close> and message \<open>j\<close> (lines 128-136 and 142-143).  \<open>to_string\<close> is
  \<^verbatim>\<open>std::to_string\<close> on a \<^verbatim>\<open>size_t\<close>: the decimal digits.\<close>

definition number_of_messages :: nat where
  "number_of_messages = 500"

definition number_of_threads :: nat where
  "number_of_threads = 6"

definition logger_name_prefix :: string where
  "logger_name_prefix = ''logger_''"

function to_string :: "nat \<Rightarrow> string" where
  "to_string n =
     (if n < 10 then [char_of (48 + n)] else to_string (n div 10) @ [char_of (48 + n mod 10)])"
  by pat_completeness auto
termination
  by (relation "measure id") auto

definition expected_json_string :: "nat \<Rightarrow> nat \<Rightarrow> string" where
  \<open>expected_json_string i j =
     ''"logger":"'' @ logger_name_prefix @ to_string i @
     ''","log_level":"INFO","message":"Hello from thread {thread_index} this is message {message_num} [{custom}]",'' @
     ''"thread_index":"'' @ to_string i @
     ''","message_num":"'' @ to_string j @
     ''","custom":"i: '' @ to_string j @ '', s: '' @ to_string j @ ''"''\<close>

definition expected_string :: "nat \<Rightarrow> nat \<Rightarrow> string" where
  "expected_string i j =
     logger_name_prefix @ to_string i @ ''     Hello from thread '' @ to_string i @
     '' this is message '' @ to_string j"

text \<open>Modelled from the spec: \<^verbatim>\<open>quill::testing::file_contains\<close> (\<^verbatim>\<open>misc/TestUtilities.h\<close>)
  is not among the sources.  The spec's scenario asks that the files "contain the expected
  rendering": some line of the file has the string as a contiguous part.\<close>

fun contains :: "string \<Rightarrow> string \<Rightarrow> bool" where
  "contains [] s = (s = [])"
| "contains (c # l) s = (take (length s) (c # l) = s \<or> contains l s)"

definition file_contains :: "string list \<Rightarrow> string \<Rightarrow> bool" where
  "file_contains file_contents s = list_ex (\<lambda>l. contains l s) file_contents"

text \<open>Modelled from the spec: the frontend, the rings, the backend worker and the two sinks
  are not among the sources.  From the spec: each producer thread has its own ring, read in
  the order written; \<open>log\<close> encodes the event and publishes it on the ring of the calling
  thread (under the block policy nothing is dropped); the backend takes the record at the
  front of a ring, formats it and invokes \<open>write\<close> on each sink of the record's logger, here
  the JSON file sink and the text file sink, each of which appends one line to its file.
  What surrounds the expected rendering on a line (time stamp, thread id, source location,
  the rest of the message) is the format engine's choice and a parameter here.  After
  \<open>flush_log\<close> on every logger and \<open>backend_stop\<close>, every ring is drained.\<close>

record log_record =
  thread_index :: nat
  message_num :: nat

record formatter =
  json_open :: "log_record \<Rightarrow> string"
  json_close :: "log_record \<Rightarrow> string"
  text_open :: "log_record \<Rightarrow> string"
  text_close :: "log_record \<Rightarrow> string"

definition json_line :: "formatter \<Rightarrow> log_record \<Rightarrow> string" where
  "json_line fmt r =
     json_open fmt r @ expected_json_string (thread_index r) (message_num r) @ json_close fmt r"

definition text_line :: "formatter \<Rightarrow> log_record \<Rightarrow> string" where
  "text_line fmt r =
     text_open fmt r @ expected_string (thread_index r) (message_num r) @ text_close fmt r"

record logging =
  next_message :: "nat \<Rightarrow> nat"
  rings :: "nat \<Rightarrow> log_record list"
  dispatched :: "log_record list"
  json_file :: "string list"
  text_file :: "string list"

text \<open>\<open>Log t\<close> is one turn of the loop of thread \<open>t\<close> (lines 91-96); \<open>Drain t\<close> is the
  backend processing the front record of the ring of thread \<open>t\<close>.\<close>

datatype test_event = Log nat | Drain nat

definition log_step :: "nat \<Rightarrow> logging \<Rightarrow> logging" where
  "log_step t s =
     (if t < number_of_threads \<and> next_message s t < number_of_messages
      then s\<lparr>rings := (rings s)(t := rings s t @ [\<lparr>thread_index = t, message_num = next_message s t\<rparr>]),
             next_message := (next_message s)(t := next_message s t + 1)\<rparr>
      else s)"

definition drain_step :: "formatter \<Rightarrow> nat \<Rightarrow> logging \<Rightarrow> logging" where
  "drain_step fmt t s =
     (case rings s t of
        [] \<Rightarrow> s
      | r # rs \<Rightarrow>
          s\<lparr>rings := (rings s)(t := rs),
            dispatched := dispatched s @ [r],
            json_file := json_file s @ [json_line fmt r],
            text_file := text_file s @ [text_line fmt r]\<rparr>)"

fun test_step :: "formatter \<Rightarrow> test_event \<Rightarrow> logging \<Rightarrow> logging" where
  "test_step fmt (Log t) s = log_step t s"
| "test_step fmt (Drain t) s = drain_step fmt t s"

fun test_run :: "formatter \<Rightarrow> test_event list \<Rightarrow> logging \<Rightarrow> logging" where
  "test_run fmt [] s = s"
| "test_run fmt (e # es) s = test_run fmt es (test_step fmt e s)"

text \<open>The start of the test (both files are opened with mode \<open>w\<close>), and its state when
  the files are read (line 116): every thread has been joined, so its loop is over; every
  logger has been flushed and the backend stopped, so every ring is empty.\<close>

definition test_start :: logging where
  "test_start = \<lparr>next_message = (\<lambda>_. 0), rings = (\<lambda>_. []), dispatched = [],
                  json_file = [], text_file = []\<rparr>"

definition test_finished :: "logging \<Rightarrow> bool" where
  "test_finished s \<longleftrightarrow>
     list_all (\<lambda>t. next_message s t = number_of_messages \<and> rings s t = []) [0..<number_of_threads]"

text \<open>What the runs of the test keep true: a thread outside the test has logged nothing;
  no thread has logged more than its share; for each thread, the records dispatched
  followed by the records still on its ring are the records it has logged, in order; and
  each file holds one line for each record dispatched.\<close>

definition test_inv :: "formatter \<Rightarrow> logging \<Rightarrow> bool" where
  "test_inv fmt s \<longleftrightarrow>
     (\<forall>t. next_message s t \<le> number_of_messages)
   \<and> (\<forall>t. number_of_threads \<le> t \<longrightarrow> next_message s t = 0)
   \<and> (\<forall>t. filter (\<lambda>r. thread_index r = t) (dispatched s) @ rings s t =
            map (\<lambda>j. \<lparr>thread_index = t, message_num = j\<rparr>) [0..<next_message s t])
   \<and> json_file s = map (json_line fmt) (dispatched s)
   \<and> text_file s = map (text_line fmt) (dispatched s)"

text \<open>For the examples: a format engine, and a schedule of the test in which each thread
  in turn logs all its messages and the backend drains its ring.\<close>

definition plain_formatter :: formatter where
  "plain_formatter =
     \<lparr>json_open = (\<lambda>_. ''{''), json_close = (\<lambda>_. ''}''),
      text_open = (\<lambda>_. ''12:00:00 ''), text_close = (\<lambda>r. '' ['' @ to_string (message_num r) @ '']'')\<rparr>"

definition thread_by_thread :: "test_event list" where
  "thread_by_thread =
     concat (map (\<lambda>t. replicate number_of_messages (Log t) @ replicate number_of_messages (Drain t))
               [0..<number_of_threads])"

section \<open>Facts about the kernel calls\<close>

lemma is_pow_of_two_iff: "is_pow_of_two n \<longleftrightarrow> (\<exists>k<64. n = 2 ^ k)"
  by (auto simp: is_pow_of_two_def list_ex_iff)

lemma unat_two_power:
  assumes "k < 64"
  shows "unat ((2::64 word) ^ k) = 2 ^ k"
proof -
  have lt: "(2::nat) ^ k < 2 ^ LENGTH(64)"
    using assms by (intro power_strict_increasing) simp_all
  have "word_of_nat (2 ^ k) = (2::64 word) ^ k" by simp
  then show ?thesis using lt by (rule of_nat_inverse)
qed

lemma is_pow_of_two_unat: "is_pow_of_two n \<longleftrightarrow> (\<exists>k. unat n = 2 ^ k)"
proof
  assume "is_pow_of_two n"
  then obtain k where k: "k < 64" "n = 2 ^ k" by (auto simp: is_pow_of_two_iff)
  then have "unat n = 2 ^ k" by (simp add: unat_two_power)
  then show "\<exists>k. unat n = 2 ^ k" ..
next
  assume "\<exists>k. unat n = 2 ^ k"
  then obtain k where k: "unat n = 2 ^ k" ..
  have "unat n < 2 ^ LENGTH(64)" by (rule unsigned_less)
  with k have "(2::nat) ^ k < 2 ^ LENGTH(64)" by simp
  then have "k < LENGTH(64)" by (rule power_less_imp_less_exp [rotated]) simp
  then have "k < 64" by simp
  moreover have "n = 2 ^ k"
  proof -
    have "n = word_of_nat (unat n)" by simp
    also have "\<dots> = 2 ^ k" unfolding k by simp
    finally show ?thesis .
  qed
  ultimately show "is_pow_of_two n" by (auto simp: is_pow_of_two_iff)
qed

lemma multiple_of_iff: "c mod p = 0 \<longleftrightarrow> unat p dvd unat c" for c p :: size_t
proof -
  have "c mod p = 0 \<longleftrightarrow> unat (c mod p) = 0" by (simp add: unat_eq_zero)
  also have "\<dots> \<longleftrightarrow> unat c mod unat p = 0" by (simp add: unat_mod)
  also have "\<dots> \<longleftrightarrow> unat p dvd unat c" by (simp add: dvd_eq_mod_eq_0)
  finally show ?thesis .
qed

lemma trace_mkstemp: "sys_mkstemp t s = (r, s') \<Longrightarrow> trace s' = trace s @ [Mkstemp t]"
  by (auto simp: sys_mkstemp_def next_answer_def called_def Let_def split: list.splits if_splits)

lemma trace_unlink: "sys_unlink p s = (r, s') \<Longrightarrow> trace s' = trace s @ [Unlink p]"
  by (auto simp: sys_unlink_def next_answer_def called_def Let_def split: list.splits if_splits)

lemma trace_ftruncate: "sys_ftruncate fd n s = (r, s') \<Longrightarrow> trace s' = trace s @ [Ftruncate fd n]"
  by (auto simp: sys_ftruncate_def next_answer_def called_def Let_def
      split: list.splits if_splits option.splits)

lemma trace_mmap: "sys_mmap a n p fl fd s = (r, s') \<Longrightarrow> trace s' = trace s @ [Mmap a n p fl fd]"
  by (auto simp: sys_mmap_def next_answer_def called_def Let_def
      split: list.splits if_splits option.splits)

lemma trace_munmap: "trace (sys_munmap a n s) = trace s @ [Munmap a n]"
  by (simp add: sys_munmap_def called_def Let_def)

lemma trace_close: "sys_close fd s = (r, s') \<Longrightarrow> trace s' = trace s @ [Close fd]"
  by (auto simp: sys_close_def next_answer_def called_def Let_def
      split: list.splits if_splits option.splits)

lemma find_in_set: "find P xs = Some x \<Longrightarrow> x \<in> set xs"
  by (induction xs) (auto split: if_splits)

lemma lowest_free_fd_nonneg: "0 \<le> lowest_free_fd tbl"
  by (auto simp: lowest_free_fd_def split: option.splits dest!: find_in_set)

lemma sys_mkstemp_effect:
  assumes "sys_mkstemp t s = ((fd, p), s')"
  shows "vm s' = vm s" "region s' = region s" "trace s' = trace s @ [Mkstemp t]"
    "fd < 0 \<Longrightarrow> fds s' = fds s \<and> dirents s' = dirents s \<and> inodes s' = inodes s"
    "\<not> fd < 0 \<Longrightarrow> dirents s p = None \<and> dirents s' = (dirents s)(p \<mapsto> length (inodes s))
        \<and> fds s' = (fd, length (inodes s)) # fds s
        \<and> inodes s' = inodes s @ [\<lparr>f_size = 0, f_data = (\<lambda>_. 0)\<rparr>]
        \<and> p = take (length t - 6) t @ suffix s"
  using assms lowest_free_fd_nonneg [of "fds s"]
  by (auto simp: sys_mkstemp_def next_answer_def called_def Let_def split: list.splits if_splits)

lemma sys_unlink_effect:
  assumes "sys_unlink p s = (r, s')"
  shows "vm s' = vm s" "region s' = region s" "trace s' = trace s @ [Unlink p]"
    "fds s' = fds s" "inodes s' = inodes s"
    "r = - 1 \<Longrightarrow> dirents s' = dirents s"
    "r \<noteq> - 1 \<Longrightarrow> dirents s' = (dirents s)(p := None)"
  using assms
  by (auto simp: sys_unlink_def next_answer_def called_def Let_def split: list.splits if_splits)

lemma sys_ftruncate_effect:
  assumes "sys_ftruncate fd n s = (r, s')"
  shows "vm s' = vm s" "region s' = region s" "trace s' = trace s @ [Ftruncate fd n]"
    "fds s' = fds s" "dirents s' = dirents s"
    "r = - 1 \<Longrightarrow> inodes s' = inodes s"
    "r \<noteq> - 1 \<Longrightarrow> 0 \<le> n \<and> (\<exists>ino. map_of (fds s) fd = Some ino \<and>
        inodes s' = (inodes s)[ino := \<lparr>f_size = nat n,
           f_data = (\<lambda>off. if off < min (f_size (inodes s ! ino)) (nat n)
                            then f_data (inodes s ! ino) off else 0)\<rparr>])"
  using assms
  by (auto simp: sys_ftruncate_def next_answer_def called_def Let_def
      split: list.splits if_splits option.splits)

lemma sys_mmap_effect:
  assumes "sys_mmap address len pr flags fd s = (r, s')"
  shows "region s' = region s" "trace s' = trace s @ [Mmap address len pr flags fd]"
    "fds s' = fds s" "dirents s' = dirents s" "inodes s' = inodes s"
    "r = None \<Longrightarrow> vm s' = vm s"
    "r = Some b \<Longrightarrow> MAP_ANONYMOUS \<in> set flags \<Longrightarrow>
        b = (if MAP_FIXED \<in> set flags then address else region s) \<and>
        vm s' = (\<lambda>a. if a - b < len then Some (Cell pr (MAP_SHARED \<notin> set flags) Anon None)
                      else vm s a)"
    "r = Some b \<Longrightarrow> MAP_ANONYMOUS \<notin> set flags \<Longrightarrow>
        b = (if MAP_FIXED \<in> set flags then address else region s) \<and>
        (\<exists>ino. map_of (fds s) fd = Some ino \<and>
          vm s' = (\<lambda>a. if a - b < len
                        then Some (Cell pr (MAP_SHARED \<notin> set flags) (File_at ino (unat (a - b))) None)
                        else vm s a))"
  using assms
  by (auto simp: sys_mmap_def next_answer_def called_def Let_def
      split: list.splits if_splits option.splits)

lemma page_round_up_multiple:
  assumes "0 < page" "n mod page = 0"
  shows "page_round_up page n = n"
proof -
  from assms(2) have "page dvd n" by (simp add: dvd_eq_mod_eq_0)
  then obtain k where k: "n = k * page" by (auto simp: dvd_def mult.commute)
  from assms(1) have "n + page - 1 = k * page + (page - 1)" by (simp add: k)
  then have "(n + page - 1) div page = k + (page - 1) div page"
    using assms(1) by (simp only: div_mult_self3) 
  with assms(1) have "(n + page - 1) div page = k" by simp
  then show ?thesis by (simp add: page_round_up_def k)
qed

lemma sys_munmap_effect:
  "region (sys_munmap a n s) = region s" "trace (sys_munmap a n s) = trace s @ [Munmap a n]"
  "fds (sys_munmap a n s) = fds s" "dirents (sys_munmap a n s) = dirents s"
  "inodes (sys_munmap a n s) = inodes s" "sc_pagesize (sys_munmap a n s) = sc_pagesize s"
  "vm (sys_munmap a n s) =
     (\<lambda>x. if \<not> munmap_refused s a n \<and> unat (x - a) < page_round_up (unat (sc_pagesize s)) (unat n)
          then None else vm s x)"
  by (simp_all add: sys_munmap_def called_def munmap_refused_def Let_def fun_eq_iff)

lemma sys_munmap_exact:
  assumes "sc_pagesize s \<noteq> 0" "unat a mod unat (sc_pagesize s) = 0" "n \<noteq> 0"
    and "unat n mod unat (sc_pagesize s) = 0" "unat a + unat n \<le> 2 ^ 64"
  shows "vm (sys_munmap a n s) = (\<lambda>x. if x - a < n then None else vm s x)"
proof -
  from assms(1) have p: "0 < unat (sc_pagesize s)" by (simp add: unat_gt_0)
  have r: "page_round_up (unat (sc_pagesize s)) (unat n) = unat n"
    using p assms(4) by (rule page_round_up_multiple)
  from assms r have "\<not> munmap_refused s a n" by (simp add: munmap_refused_def)
  then show ?thesis by (simp add: sys_munmap_effect(7) r word_less_nat_alt)
qed

lemma sys_close_effect:
  assumes "sys_close fd s = (r, s')"
  shows "vm s' = vm s" "region s' = region s" "trace s' = trace s @ [Close fd]"
    "dirents s' = dirents s" "inodes s' = inodes s"
    "map_of (fds s') fd = None"
    "fd' \<noteq> fd \<Longrightarrow> map_of (fds s') fd' = map_of (fds s) fd'"
    "r \<noteq> - 1 \<Longrightarrow> map_of (fds s) fd \<noteq> None"
proof -
  have *: "map_of (filter (\<lambda>p. fst p \<noteq> fd) xs) k = (if k = fd then None else map_of xs k)"
    for xs :: "(int \<times> nat) list" and k
    by (induction xs) auto
  from assms show "vm s' = vm s" "region s' = region s" "trace s' = trace s @ [Close fd]"
    "dirents s' = dirents s" "inodes s' = inodes s"
    "map_of (fds s') fd = None"
    "fd' \<noteq> fd \<Longrightarrow> map_of (fds s') fd' = map_of (fds s) fd'"
    "r \<noteq> - 1 \<Longrightarrow> map_of (fds s) fd \<noteq> None"
    by (auto simp: sys_close_def next_answer_def called_def Let_def *
        split: list.splits if_splits option.splits)
qed


lemma pagesize_unlink: "sys_unlink p s = (r, s') \<Longrightarrow> sc_pagesize s' = sc_pagesize s"
  by (auto simp: sys_unlink_def next_answer_def called_def Let_def split: list.splits if_splits)

lemma pagesize_ftruncate: "sys_ftruncate fd n s = (r, s') \<Longrightarrow> sc_pagesize s' = sc_pagesize s"
  by (auto simp: sys_ftruncate_def next_answer_def called_def Let_def
      split: list.splits if_splits option.splits)

lemma pagesize_mmap: "sys_mmap a n p fl fd s = (r, s') \<Longrightarrow> sc_pagesize s' = sc_pagesize s"
  by (auto simp: sys_mmap_def next_answer_def called_def Let_def
      split: list.splits if_splits option.splits)

lemma pagesize_close: "sys_close fd s = (r, s') \<Longrightarrow> sc_pagesize s' = sc_pagesize s"
  by (auto simp: sys_close_def next_answer_def called_def Let_def
      split: list.splits if_splits option.splits)

lemma sys_mmap_length: "sys_mmap a n p fl fd s = (Some b, s') \<Longrightarrow> n \<noteq> 0"
  by (auto simp: sys_mmap_def next_answer_def called_def Let_def
      split: list.splits if_splits option.splits)

lemma map_backing_file_success_steps:
  assumes "map_backing_file capacity fd p s = (Inr (base, h), s')"
  obtains r3 s3 r4 s4 s5 s6 s7 r8 where
    "sys_unlink p s = (r3, s3)" "r3 \<noteq> - 1"
    "sys_ftruncate fd (sint capacity) s3 = (r4, s4)" "r4 \<noteq> - 1"
    "sys_mmap 0 (2 * capacity) PROT_NONE MMAP_FLAGS (- 1) s4 = (Some base, s5)"
    "sys_mmap base capacity PROT_READ_WRITE [MAP_FIXED, MAP_PRIVATE] fd s5 = (Some base, s6)"
    "sys_mmap (base + capacity) capacity PROT_READ_WRITE [MAP_FIXED, MAP_PRIVATE] fd s6 =
       (Some (base + capacity), s7)"
    "sys_close fd s7 = (r8, s')" "r8 \<noteq> - 1" "h = 0"
  using assms
  by (auto simp: map_backing_file_def Let_def split: prod.splits if_splits option.splits)


lemma map_backing_file_success:
  assumes "map_backing_file capacity fd p s = (Inr (base, h), s')"
  shows "h = 0" and "base = region s" and "dirents s' = (dirents s)(p := None)"
    and "map_of (fds s') fd = None"
    and "\<And>fd'. fd' \<noteq> fd \<Longrightarrow> map_of (fds s') fd' = map_of (fds s) fd'"
    and "trace s' = trace s @
           [Unlink p, Ftruncate fd (sint capacity),
            Mmap 0 (2 * capacity) PROT_NONE MMAP_FLAGS (- 1),
            Mmap base capacity PROT_READ_WRITE [MAP_FIXED, MAP_PRIVATE] fd,
            Mmap (base + capacity) capacity PROT_READ_WRITE [MAP_FIXED, MAP_PRIVATE] fd,
            Close fd]"
    and "\<exists>ino. map_of (fds s) fd = Some ino \<and> 0 \<le> sint capacity
          \<and> inodes s' = (inodes s)[ino := \<lparr>f_size = nat (sint capacity),
               f_data = (\<lambda>off. if off < min (f_size (inodes s ! ino)) (nat (sint capacity))
                                then f_data (inodes s ! ino) off else 0)\<rparr>]
          \<and> vm s' =
              (\<lambda>a. if a - (base + capacity) < capacity
                    then Some (Cell PROT_READ_WRITE True (File_at ino (unat (a - (base + capacity)))) None)
                    else if a - base < capacity
                    then Some (Cell PROT_READ_WRITE True (File_at ino (unat (a - base))) None)
                    else if a - base < 2 * capacity then Some (Cell PROT_NONE True Anon None)
                    else vm s a)"
proof -
  from assms obtain r3 s3 r4 s4 s5 s6 s7 r8 where
    u: "sys_unlink p s = (r3, s3)" and ru: "r3 \<noteq> - 1" and
    f: "sys_ftruncate fd (sint capacity) s3 = (r4, s4)" and rf: "r4 \<noteq> - 1" and
    m0: "sys_mmap 0 (2 * capacity) PROT_NONE MMAP_FLAGS (- 1) s4 = (Some base, s5)" and
    m1: "sys_mmap base capacity PROT_READ_WRITE [MAP_FIXED, MAP_PRIVATE] fd s5 = (Some base, s6)" and
    m2: "sys_mmap (base + capacity) capacity PROT_READ_WRITE [MAP_FIXED, MAP_PRIVATE] fd s6 =
       (Some (base + capacity), s7)" and
    c: "sys_close fd s7 = (r8, s')" and rc: "r8 \<noteq> - 1" and h: "h = 0"
    by (rule map_backing_file_success_steps)
  note eu = sys_unlink_effect [OF u] and ef = sys_ftruncate_effect [OF f]
    and e0 = sys_mmap_effect [OF m0] and e1 = sys_mmap_effect [OF m1]
    and e2 = sys_mmap_effect [OF m2] and ec = sys_close_effect [OF c]
  show "h = 0" by (rule h)
  from e0(7) [OF refl] show "base = region s"
    by (simp add: MMAP_FLAGS_def ef(2) eu(2))
  show "dirents s' = (dirents s)(p := None)"
    by (simp add: ec(4) e2(4) e1(4) e0(4) ef(5) eu(7) [OF ru])
  show "map_of (fds s') fd = None" by (rule ec(6))
  show "map_of (fds s') fd' = map_of (fds s) fd'" if "fd' \<noteq> fd" for fd'
    using that by (simp add: ec(7) e2(3) e1(3) e0(3) ef(4) eu(4))
  show "trace s' = trace s @
           [Unlink p, Ftruncate fd (sint capacity),
            Mmap 0 (2 * capacity) PROT_NONE MMAP_FLAGS (- 1),
            Mmap base capacity PROT_READ_WRITE [MAP_FIXED, MAP_PRIVATE] fd,
            Mmap (base + capacity) capacity PROT_READ_WRITE [MAP_FIXED, MAP_PRIVATE] fd,
            Close fd]"
    by (simp add: ec(3) e2(2) e1(2) e0(2) ef(3) eu(3))
  from ef(7) [OF rf, unfolded eu(4) eu(5)] obtain ino where ino: "map_of (fds s) fd = Some ino" "0 \<le> sint capacity"
    "inodes s4 = (inodes s)[ino := \<lparr>f_size = nat (sint capacity),
               f_data = (\<lambda>off. if off < min (f_size (inodes s ! ino)) (nat (sint capacity))
                                then f_data (inodes s ! ino) off else 0)\<rparr>]"
    by blast
  have v5: "vm s5 = (\<lambda>a. if a - base < 2 * capacity then Some (Cell PROT_NONE True Anon None) else vm s a)"
    using e0(7) [OF refl] by (simp add: MMAP_FLAGS_def ef(1) eu(1) cong: if_cong)
  have fd5: "map_of (fds s5) fd = Some ino" by (simp add: e0(3) ef(4) eu(4) ino(1))
  have v6: "vm s6 = (\<lambda>a. if a - base < capacity
        then Some (Cell PROT_READ_WRITE True (File_at ino (unat (a - base))) None) else vm s5 a)"
    using e1(8) [OF refl] fd5 by (simp cong: if_cong)
  have fd6: "map_of (fds s6) fd = Some ino" by (simp add: e1(3) fd5)
  have v7: "vm s7 = (\<lambda>a. if a - (base + capacity) < capacity
        then Some (Cell PROT_READ_WRITE True (File_at ino (unat (a - (base + capacity)))) None)
        else vm s6 a)"
    using e2(8) [OF refl] fd6 by (simp cong: if_cong)
  have "vm s' = (\<lambda>a. if a - (base + capacity) < capacity
                    then Some (Cell PROT_READ_WRITE True (File_at ino (unat (a - (base + capacity)))) None)
                    else if a - base < capacity
                    then Some (Cell PROT_READ_WRITE True (File_at ino (unat (a - base))) None)
                    else if a - base < 2 * capacity then Some (Cell PROT_NONE True Anon None)
                    else vm s a)"
    by (simp add: ec(1) v7 v6 v5 cong: if_cong)
  moreover have "inodes s' = inodes s4" by (simp add: ec(5) e2(5) e1(5) e0(5))
  ultimately show "\<exists>ino. map_of (fds s) fd = Some ino \<and> 0 \<le> sint capacity
          \<and> inodes s' = (inodes s)[ino := \<lparr>f_size = nat (sint capacity),
               f_data = (\<lambda>off. if off < min (f_size (inodes s ! ino)) (nat (sint capacity))
                                then f_data (inodes s ! ino) off else 0)\<rparr>]
          \<and> vm s' =
              (\<lambda>a. if a - (base + capacity) < capacity
                    then Some (Cell PROT_READ_WRITE True (File_at ino (unat (a - (base + capacity)))) None)
                    else if a - base < capacity
                    then Some (Cell PROT_READ_WRITE True (File_at ino (unat (a - base))) None)
                    else if a - base < 2 * capacity then Some (Cell PROT_NONE True Anon None)
                    else vm s a)"
    using ino by simp
qed


lemma find_None_D: "find P xs = None \<Longrightarrow> x \<in> set xs \<Longrightarrow> \<not> P x"
  by (induction xs) (auto split: if_splits)

lemma lowest_free_fd_fresh: "map_of tbl (lowest_free_fd tbl) = None"
proof (cases "find (\<lambda>n. map_of tbl n = None) (map int [0..<Suc (length tbl)])")
  case (Some n)
  then have "map_of tbl n = None" by (auto simp: find_Some_iff)
  with Some show ?thesis by (simp add: lowest_free_fd_def)
next
  case None
  have "map_of tbl (int k) \<noteq> None" if "k < Suc (length tbl)" for k
  proof -
    from that have k: "int k \<in> set (map int [0..<Suc (length tbl)])"
      by (simp del: upt_Suc)
    from None k show ?thesis by (rule find_None_D)
  qed
  then have "int ` {0..<Suc (length tbl)} \<subseteq> fst ` set tbl"
    by (auto simp: map_of_eq_None_iff)
  then have "card (int ` {0..<Suc (length tbl)}) \<le> card (fst ` set tbl)"
    by (intro card_mono) auto
  moreover have "card (int ` {0..<Suc (length tbl)}) = Suc (length tbl)"
    by (simp add: card_image)
  moreover have "card (fst ` set tbl) \<le> length tbl"
    by (meson card_image_le card_length le_trans List.finite_set)
  ultimately show ?thesis by simp
qed

lemma sys_mkstemp_fresh:
  assumes "sys_mkstemp t s = ((fd, p), s')" "\<not> fd < 0"
  shows "map_of (fds s) fd = None"
  using assms lowest_free_fd_fresh [of "fds s"]
  by (auto simp: sys_mkstemp_def next_answer_def called_def Let_def split: list.splits if_splits)

lemma first_half_not_in_second:
  fixes capacity off :: size_t
  assumes "capacity < 2 ^ 63" "off < capacity"
  shows "\<not> off - capacity < capacity"
proof -
  from assms have c: "unat capacity < 2 ^ 63" and o: "unat off < unat capacity"
    by (simp_all add: word_less_nat_alt)
  from o have "unat (off - capacity) = unat off + 2 ^ LENGTH(64) - unat capacity"
    by (simp add: unat_sub_if')
  with c o have "unat capacity \<le> unat (off - capacity)" by simp
  then show ?thesis by (simp add: word_less_nat_alt)
qed

lemma sint_nonneg_less:
  fixes capacity :: size_t
  assumes "0 \<le> sint capacity"
  shows "capacity < 2 ^ 63" "nat (sint capacity) = unat capacity"
proof -
  have lt: "sint capacity < 2 ^ 63" using sint_less [of capacity] by simp
  have "uint capacity = take_bit 64 (sint capacity)" using uint_sint [of capacity] by simp
  also have "\<dots> = sint capacity" using assms lt by (intro take_bit_int_eq_self) auto
  finally have "sint capacity = uint capacity" by simp
  with lt have "uint capacity < 2 ^ 63" by simp
  then show "capacity < 2 ^ 63" by (simp add: word_less_def)
  from \<open>sint capacity = uint capacity\<close> show "nat (sint capacity) = unat capacity" by simp
qed

section \<open>The capacity checks\<close>

lemma map_backing_file_not_runtime_error:
  "fst (map_backing_file capacity fd p s) \<noteq> Inl (Runtime_error msg)"
  by (simp add: map_backing_file_def Let_def split: prod.split option.split)

lemma map_backing_file_trace:
  "\<exists>rest. trace (snd (map_backing_file capacity fd p s)) = trace s @ Unlink p # rest"
  by (auto simp: map_backing_file_def Let_def trace_munmap split: prod.split option.split
      dest!: trace_unlink trace_ftruncate trace_mmap trace_close)

lemma create_not_runtime_error:
  assumes "is_pow_of_two capacity" "get_page_size s \<noteq> 0" "capacity mod get_page_size s = 0"
  shows "fst (create_memory_mapped_files capacity s) \<noteq> Inl (Runtime_error msg)"
  using assms
  by (simp add: create_memory_mapped_files_def map_backing_file_not_runtime_error split: prod.split)

lemma create_calls_mkstemp:
  assumes "is_pow_of_two capacity" "get_page_size s \<noteq> 0" "capacity mod get_page_size s = 0"
  shows "\<exists>rest. trace (snd (create_memory_mapped_files capacity s)) =
           trace s @ Mkstemp ''/dev/shm/quill-XXXXXX'' # rest"
proof -
  obtain fd0 p0 s1 where m0: "sys_mkstemp ''/dev/shm/quill-XXXXXX'' s = ((fd0, p0), s1)"
    by (metis surj_pair)
  obtain fd1 p1 s2 where m1: "sys_mkstemp ''/tmp/quill-XXXXXX'' s1 = ((fd1, p1), s2)"
    by (metis surj_pair)
  note t0 = trace_mkstemp [OF m0] and t1 = trace_mkstemp [OF m1]
  show ?thesis
  proof (cases "fd0 < 0")
    case False
    with assms m0 t0 map_backing_file_trace [of capacity fd0 p0 s1] show ?thesis
      by (auto simp: create_memory_mapped_files_def)
  next
    case True
    show ?thesis
    proof (cases "fd1 < 0")
      case True
      with \<open>fd0 < 0\<close> assms m0 m1 t0 t1 show ?thesis
        by (simp add: create_memory_mapped_files_def)
    next
      case False
      with \<open>fd0 < 0\<close> assms m0 m1 t0 t1 map_backing_file_trace [of capacity fd1 p1 s2]
      show ?thesis
        by (auto simp: create_memory_mapped_files_def)
    qed
  qed
qed

text \<open>
  Claim C2.  Let the page size reported by the system be non-zero.  A capacity that is
  not a power of two makes \<open>create_memory_mapped_files\<close> throw the runtime error
  "capacity needs to be power of two"; a power of two that is not a multiple of the page
  size makes it throw "capacity needs to be multiple of page size".  In both cases the
  state of the system is the one before the call: no system call has been made, so no
  file and no mapping exists that did not exist before.  A capacity that is a power of two
  and a multiple of the page size passes both checks: whatever the function goes on to
  return, it is not a runtime error, and its first system call, \<^verbatim>\<open>mkstemp\<close> on the
  shared-memory template, is made.
\<close>

theorem create_memory_mapped_files_capacity_checks:
  assumes "get_page_size s \<noteq> 0"
  shows "((\<nexists>k. unat capacity = 2 ^ k) \<longrightarrow>
            create_memory_mapped_files capacity s =
              (Inl (Runtime_error ''capacity needs to be power of two''), s))
       \<and> ((\<exists>k. unat capacity = 2 ^ k) \<and> \<not> unat (get_page_size s) dvd unat capacity \<longrightarrow>
            create_memory_mapped_files capacity s =
              (Inl (Runtime_error ''capacity needs to be multiple of page size''), s))
       \<and> ((\<exists>k. unat capacity = 2 ^ k) \<and> unat (get_page_size s) dvd unat capacity \<longrightarrow>
            (\<forall>msg. fst (create_memory_mapped_files capacity s) \<noteq> Inl (Runtime_error msg))
          \<and> (\<exists>rest. trace (snd (create_memory_mapped_files capacity s)) =
                 trace s @ Mkstemp ''/dev/shm/quill-XXXXXX'' # rest))"
proof (intro conjI impI)
  assume "\<nexists>k. unat capacity = 2 ^ k"
  then have "\<not> is_pow_of_two capacity" by (simp add: is_pow_of_two_unat)
  then show "create_memory_mapped_files capacity s =
      (Inl (Runtime_error ''capacity needs to be power of two''), s)"
    by (simp add: create_memory_mapped_files_def)
next
  assume "(\<exists>k. unat capacity = 2 ^ k) \<and> \<not> unat (get_page_size s) dvd unat capacity"
  then have "is_pow_of_two capacity" "capacity mod get_page_size s \<noteq> 0"
    by (simp_all add: is_pow_of_two_unat multiple_of_iff)
  with assms show "create_memory_mapped_files capacity s =
      (Inl (Runtime_error ''capacity needs to be multiple of page size''), s)"
    by (simp add: create_memory_mapped_files_def)
next
  assume "(\<exists>k. unat capacity = 2 ^ k) \<and> unat (get_page_size s) dvd unat capacity"
  then have ok: "is_pow_of_two capacity" "capacity mod get_page_size s = 0"
    by (simp_all add: is_pow_of_two_unat multiple_of_iff)
  show "\<forall>msg. fst (create_memory_mapped_files capacity s) \<noteq> Inl (Runtime_error msg)"
    using ok assms by (simp add: create_not_runtime_error)
  show "\<exists>rest. trace (snd (create_memory_mapped_files capacity s)) =
      trace s @ Mkstemp ''/dev/shm/quill-XXXXXX'' # rest"
    using ok assms by (simp add: create_calls_mkstemp)
qed

lemmas run_defs = create_memory_mapped_files_def map_backing_file_def get_page_size_def boot_def
  sys_mkstemp_def sys_unlink_def sys_ftruncate_def sys_mmap_def sys_munmap_def
  munmap_refused_def page_round_up_def sys_close_def next_answer_def called_def lowest_free_fd_def MMAP_FLAGS_def Let_def

lemma is_pow_of_two_4096: "is_pow_of_two 4096" by code_simp

lemma get_page_size_boot: "get_page_size (boot as) = 4096"
  by (simp add: get_page_size_def boot_def)

theorem create_memory_mapped_files_capacity_checks_witness:
  "get_page_size (boot []) \<noteq> 0
   \<and> (\<nexists>k. unat (3 :: size_t) = 2 ^ k)
   \<and> create_memory_mapped_files 3 (boot []) =
        (Inl (Runtime_error ''capacity needs to be power of two''), boot [])
   \<and> (\<exists>k. unat (2 :: size_t) = 2 ^ k) \<and> \<not> unat (get_page_size (boot [])) dvd unat (2 :: size_t)
   \<and> create_memory_mapped_files 2 (boot []) =
        (Inl (Runtime_error ''capacity needs to be multiple of page size''), boot [])
   \<and> (\<exists>k. unat (4096 :: size_t) = 2 ^ k) \<and> unat (get_page_size (boot [])) dvd unat (4096 :: size_t)
   \<and> (\<forall>msg. fst (create_memory_mapped_files 4096 (boot [])) \<noteq> Inl (Runtime_error msg))"
proof -
  have h0: "get_page_size (boot []) \<noteq> 0" by (simp add: get_page_size_boot)
  have "\<not> is_pow_of_two 3" by code_simp
  with is_pow_of_two_unat [of 3] have h3: "\<nexists>k. unat (3 :: size_t) = 2 ^ k" by blast
  have "is_pow_of_two 2" by code_simp
  with is_pow_of_two_unat [of 2] have h2: "\<exists>k. unat (2 :: size_t) = 2 ^ k" by blast
  have d2: "\<not> unat (get_page_size (boot [])) dvd unat (2 :: size_t)"
    by (simp add: get_page_size_boot)
  have "is_pow_of_two 4096" by code_simp
  with is_pow_of_two_unat [of 4096] have h4: "\<exists>k. unat (4096 :: size_t) = 2 ^ k" by blast
  have d4: "unat (get_page_size (boot [])) dvd unat (4096 :: size_t)"
    by (simp add: get_page_size_boot)
  note checks = create_memory_mapped_files_capacity_checks [OF h0]
  from checks [of 3] h3 have c3: "create_memory_mapped_files 3 (boot []) =
      (Inl (Runtime_error ''capacity needs to be power of two''), boot [])" by blast
  from checks [of 2] h2 d2 have c2: "create_memory_mapped_files 2 (boot []) =
      (Inl (Runtime_error ''capacity needs to be multiple of page size''), boot [])" by blast
  from checks [of 4096] h4 d4
  have c4: "\<forall>msg. fst (create_memory_mapped_files 4096 (boot [])) \<noteq> Inl (Runtime_error msg)"
    by blast
  from h0 h3 c3 h2 d2 c2 h4 d4 c4 show ?thesis by blast
qed

section \<open>Tearing the region down\<close>

lemma double_capacity:
  fixes capacity :: size_t
  assumes "capacity < 2 ^ 63"
  shows "unat (2 * capacity) = 2 * unat capacity"
proof -
  from assms have "unat capacity < 2 ^ 63" by (simp add: word_less_nat_alt)
  then have "2 * unat capacity < 2 ^ LENGTH(64)" by simp
  then show ?thesis by (simp add: unat_mult_lem [THEN iffD1])
qed

lemma both_halves_in_range:
  fixes capacity off :: size_t
  assumes "capacity < 2 ^ 63" "off < capacity"
  shows "off < 2 * capacity" "capacity + off < 2 * capacity"
proof -
  from assms have c: "unat capacity < 2 ^ 63" and o: "unat off < unat capacity"
    by (simp_all add: word_less_nat_alt)
  have d: "unat (2 * capacity) = 2 * unat capacity" using assms(1) by (rule double_capacity)
  from c o have "unat capacity + unat off < 2 ^ LENGTH(64)" by simp
  then have s: "unat (capacity + off) = unat capacity + unat off"
    by (simp add: unat_add_lem [THEN iffD1])
  from o d show "off < 2 * capacity" by (simp add: word_less_nat_alt)
  from o d s show "capacity + off < 2 * capacity" by (simp add: word_less_nat_alt)
qed

text \<open>
  Claim C10.  With a null base pointer \<open>destroy_memory_mapped_files\<close> returns at once: the
  state of the system is untouched and no call is made.  With any other base pointer it
  makes exactly one system call, \<^verbatim>\<open>munmap(base, 2 * capacity)\<close>, and leaves the
  descriptors, the inodes and the directory as they were.  What the call unmaps is the
  kernel's answer: nothing when it refuses the call (a base that is not a multiple of the
  page size, a length of zero, a range that leaves the address space), and otherwise the
  whole pages of the range.  Called on a double-mapped region, that is with a base that is
  a multiple of the page size, a capacity that is a non-zero multiple of the page size and
  below \<open>2 ^ 63\<close>, and \<open>2 * capacity\<close> bytes of address space from the base on, the length
  does not wrap, exactly the addresses of \<open>[base, base + 2 * capacity)\<close> are unmapped and all
  others are as before: both halves \<open>[base, base + capacity)\<close> and
  \<open>[base + capacity, base + 2 * capacity)\<close> are gone.
\<close>

theorem destroy_memory_mapped_files_unmaps_once:
  "(fst pointer_pair = 0 \<longrightarrow> destroy_memory_mapped_files pointer_pair capacity s = s)
 \<and> (fst pointer_pair \<noteq> 0 \<longrightarrow>
      (let base = fst pointer_pair;
           s' = destroy_memory_mapped_files pointer_pair capacity s
       in trace s' = trace s @ [Munmap base (2 * capacity)]
        \<and> fds s' = fds s \<and> inodes s' = inodes s \<and> dirents s' = dirents s
        \<and> (munmap_refused s base (2 * capacity) \<longrightarrow> vm s' = vm s)
        \<and> (\<not> munmap_refused s base (2 * capacity) \<longrightarrow>
             (\<forall>a. vm s' a =
                (if unat (a - base) < page_round_up (unat (sc_pagesize s)) (unat (2 * capacity))
                 then None else vm s a)))
        \<and> (sc_pagesize s \<noteq> 0 \<and> unat base mod unat (sc_pagesize s) = 0
           \<and> capacity \<noteq> 0 \<and> unat capacity mod unat (sc_pagesize s) = 0
           \<and> capacity < 2 ^ 63 \<and> unat base + 2 * unat capacity \<le> 2 ^ 64 \<longrightarrow>
             unat (2 * capacity) = 2 * unat capacity
           \<and> (\<forall>a. vm s' a = (if a - base < 2 * capacity then None else vm s a))
           \<and> (\<forall>off. off < capacity \<longrightarrow>
                 vm s' (base + off) = None \<and> vm s' (base + capacity + off) = None))))"
proof (intro conjI impI)
  assume "fst pointer_pair = 0"
  then show "destroy_memory_mapped_files pointer_pair capacity s = s"
    by (simp add: destroy_memory_mapped_files_def)
next
  assume nz: "fst pointer_pair \<noteq> 0"
  define base where "base = fst pointer_pair"
  define s' where "s' = destroy_memory_mapped_files pointer_pair capacity s"
  have s': "s' = sys_munmap base (2 * capacity) s"
    using nz by (simp add: s'_def base_def destroy_memory_mapped_files_def)
  have rest: "trace s' = trace s @ [Munmap base (2 * capacity)]"
    "fds s' = fds s" "inodes s' = inodes s" "dirents s' = dirents s"
    by (simp_all add: s' sys_munmap_effect)
  have refused: "vm s' = vm s" if "munmap_refused s base (2 * capacity)"
    using that by (simp add: s' sys_munmap_effect(7))
  have pages: "vm s' a =
      (if unat (a - base) < page_round_up (unat (sc_pagesize s)) (unat (2 * capacity))
       then None else vm s a)" if "\<not> munmap_refused s base (2 * capacity)" for a
    using that by (simp add: s' sys_munmap_effect(7))
  have region: "unat (2 * capacity) = 2 * unat capacity
      \<and> (\<forall>a. vm s' a = (if a - base < 2 * capacity then None else vm s a))
      \<and> (\<forall>off. off < capacity \<longrightarrow>
            vm s' (base + off) = None \<and> vm s' (base + capacity + off) = None)"
    if ok: "sc_pagesize s \<noteq> 0 \<and> unat base mod unat (sc_pagesize s) = 0
           \<and> capacity \<noteq> 0 \<and> unat capacity mod unat (sc_pagesize s) = 0
           \<and> capacity < 2 ^ 63 \<and> unat base + 2 * unat capacity \<le> 2 ^ 64"
  proof -
    from ok have cap: "capacity < 2 ^ 63" by blast
    have d: "unat (2 * capacity) = 2 * unat capacity" using cap by (rule double_capacity)
    from ok have "unat capacity \<noteq> 0" by (simp add: unat_eq_zero)
    with d have n0: "2 * capacity \<noteq> 0" by (auto simp flip: unat_eq_zero)
    from ok have "unat (sc_pagesize s) dvd unat capacity" by (simp add: dvd_eq_mod_eq_0)
    then have "unat (sc_pagesize s) dvd 2 * unat capacity" by (rule dvd_mult)
    with d have m: "unat (2 * capacity) mod unat (sc_pagesize s) = 0"
      by (simp add: dvd_eq_mod_eq_0)
    from ok d have r: "unat base + unat (2 * capacity) \<le> 2 ^ 64" by simp
    have v: "vm s' = (\<lambda>x. if x - base < 2 * capacity then None else vm s x)"
      unfolding s' using ok n0 m r by (intro sys_munmap_exact) blast+
    have h: "vm s' (base + off) = None \<and> vm s' (base + capacity + off) = None"
      if "off < capacity" for off
      using both_halves_in_range [OF cap that] by (simp add: v add.assoc)
    from d v h show ?thesis by simp
  qed
  show "let base = fst pointer_pair;
           s' = destroy_memory_mapped_files pointer_pair capacity s
       in trace s' = trace s @ [Munmap base (2 * capacity)]
        \<and> fds s' = fds s \<and> inodes s' = inodes s \<and> dirents s' = dirents s
        \<and> (munmap_refused s base (2 * capacity) \<longrightarrow> vm s' = vm s)
        \<and> (\<not> munmap_refused s base (2 * capacity) \<longrightarrow>
             (\<forall>a. vm s' a =
                (if unat (a - base) < page_round_up (unat (sc_pagesize s)) (unat (2 * capacity))
                 then None else vm s a)))
        \<and> (sc_pagesize s \<noteq> 0 \<and> unat base mod unat (sc_pagesize s) = 0
           \<and> capacity \<noteq> 0 \<and> unat capacity mod unat (sc_pagesize s) = 0
           \<and> capacity < 2 ^ 63 \<and> unat base + 2 * unat capacity \<le> 2 ^ 64 \<longrightarrow>
             unat (2 * capacity) = 2 * unat capacity
           \<and> (\<forall>a. vm s' a = (if a - base < 2 * capacity then None else vm s a))
           \<and> (\<forall>off. off < capacity \<longrightarrow>
                 vm s' (base + off) = None \<and> vm s' (base + capacity + off) = None))"
    unfolding Let_def base_def [symmetric] s'_def [symmetric]
    using rest refused pages region by blast
qed

theorem destroy_memory_mapped_files_unmaps_once_witness:
  "destroy_memory_mapped_files (0, 0) 4096 (boot []) = boot []
 \<and> vm (snd (create_memory_mapped_files 4096 (boot []))) 0x7f0000000000 \<noteq> None
 \<and> vm (snd (create_memory_mapped_files 4096 (boot []))) 0x7f0000001000 \<noteq> None
 \<and> trace (destroy_memory_mapped_files (0x7f0000000000, 0) 4096
       (snd (create_memory_mapped_files 4096 (boot [])))) =
     trace (snd (create_memory_mapped_files 4096 (boot []))) @ [Munmap 0x7f0000000000 8192]
 \<and> vm (destroy_memory_mapped_files (0x7f0000000000, 0) 4096
       (snd (create_memory_mapped_files 4096 (boot [])))) 0x7f0000000000 = None
 \<and> vm (destroy_memory_mapped_files (0x7f0000000000, 0) 4096
       (snd (create_memory_mapped_files 4096 (boot [])))) 0x7f0000001000 = None
 \<and> munmap_refused (snd (create_memory_mapped_files 4096 (boot []))) 0x7f0000000001 8192
 \<and> trace (destroy_memory_mapped_files (0x7f0000000001, 0) 4096
       (snd (create_memory_mapped_files 4096 (boot [])))) =
     trace (snd (create_memory_mapped_files 4096 (boot []))) @ [Munmap 0x7f0000000001 8192]
 \<and> vm (destroy_memory_mapped_files (0x7f0000000001, 0) 4096
       (snd (create_memory_mapped_files 4096 (boot [])))) =
     vm (snd (create_memory_mapped_files 4096 (boot [])))
 \<and> \<not> munmap_refused (snd (create_memory_mapped_files 4096 (boot []))) 0x7f0000000000 200
 \<and> vm (destroy_memory_mapped_files (0x7f0000000000, 0) 100
       (snd (create_memory_mapped_files 4096 (boot [])))) 0x7f0000000fff = None
 \<and> vm (destroy_memory_mapped_files (0x7f0000000000, 0) 100
       (snd (create_memory_mapped_files 4096 (boot [])))) 0x7f0000001000 \<noteq> None"
proof -
  define S where "S = snd (create_memory_mapped_files 4096 (boot []))"
  have null: "destroy_memory_mapped_files (0, 0) 4096 (boot []) = boot []"
    using destroy_memory_mapped_files_unmaps_once [of "(0, 0)" 4096 "boot []"] by simp
  have mapped: "vm S 0x7f0000000000 \<noteq> None" "vm S 0x7f0000001000 \<noteq> None"
    by (simp_all add: S_def run_defs is_pow_of_two_4096)
  have page: "sc_pagesize S = 4096"
    by (simp add: S_def run_defs is_pow_of_two_4096)
  have round: "page_round_up 4096 200 = 4096" "page_round_up 4096 8192 = 8192"
    by (simp_all add: page_round_up_def)
  have refused: "munmap_refused S 0x7f0000000001 8192"
    by (simp add: munmap_refused_def page)
  have accepted: "\<not> munmap_refused S 0x7f0000000000 200"
    by (simp add: munmap_refused_def page round)
  note d = destroy_memory_mapped_files_unmaps_once [of "(0x7f0000000000, 0)" 4096 S,
      simplified Let_def page, simplified]
  from d have tr: "trace (destroy_memory_mapped_files (0x7f0000000000, 0) 4096 S) =
      trace S @ [Munmap 0x7f0000000000 8192]"
    by (rule conjunct1)
  from d have "\<forall>off<4096.
      vm (destroy_memory_mapped_files (0x7f0000000000, 0) 4096 S) (0x7f0000000000 + off) = None
    \<and> vm (destroy_memory_mapped_files (0x7f0000000000, 0) 4096 S) (0x7f0000001000 + off) = None"
    by blast
  from this [rule_format, of 0]
  have un: "vm (destroy_memory_mapped_files (0x7f0000000000, 0) 4096 S) 0x7f0000000000 = None"
    "vm (destroy_memory_mapped_files (0x7f0000000000, 0) 4096 S) 0x7f0000001000 = None"
    by simp_all
  note r = destroy_memory_mapped_files_unmaps_once [of "(0x7f0000000001, 0)" 4096 S,
      simplified Let_def, simplified]
  from r have rtr: "trace (destroy_memory_mapped_files (0x7f0000000001, 0) 4096 S) =
      trace S @ [Munmap 0x7f0000000001 8192]"
    by (rule conjunct1)
  from r refused have rvm: "vm (destroy_memory_mapped_files (0x7f0000000001, 0) 4096 S) = vm S"
    by blast
  note p = destroy_memory_mapped_files_unmaps_once [of "(0x7f0000000000, 0)" 100 S,
      simplified Let_def, simplified]
  from p accepted have "\<forall>a. vm (destroy_memory_mapped_files (0x7f0000000000, 0) 100 S) a =
      (if unat (a - 0x7f0000000000) < 4096 then None else vm S a)"
    by (simp add: page round)
  from this [rule_format, of "0x7f0000000fff"] this [rule_format, of "0x7f0000001000"] mapped(2)
  have pg: "vm (destroy_memory_mapped_files (0x7f0000000000, 0) 100 S) 0x7f0000000fff = None"
    "vm (destroy_memory_mapped_files (0x7f0000000000, 0) 100 S) 0x7f0000001000 \<noteq> None"
    by simp_all
  from null mapped tr un refused rtr rvm accepted pg show ?thesis unfolding S_def by blast
qed

section \<open>The backing file\<close>

lemma map_backing_file_after_mkstemp:
  assumes mk: "sys_mkstemp t s0 = ((fd, p), s1)" and ok: "\<not> fd < 0"
    and run: "map_backing_file capacity fd p s1 = (Inr (base, h), s')"
  shows "h = 0" and "base = region s0" and "dirents s' = dirents s0"
    and "map_of (fds s') = map_of (fds s0)" and "capacity < 2 ^ 63"
    and "inodes s' = inodes s0 @ [\<lparr>f_size = unat capacity, f_data = (\<lambda>_. 0)\<rparr>]"
    and "vm s' = ring_vm base capacity (length (inodes s0)) (vm s0)"
    and "trace s' = trace s0 @
           [Mkstemp t, Unlink p, Ftruncate fd (sint capacity),
            Mmap 0 (2 * capacity) PROT_NONE MMAP_FLAGS (- 1),
            Mmap base capacity PROT_READ_WRITE [MAP_FIXED, MAP_PRIVATE] fd,
            Mmap (base + capacity) capacity PROT_READ_WRITE [MAP_FIXED, MAP_PRIVATE] fd,
            Close fd]"
proof -
  note em = sys_mkstemp_effect [OF mk] and fresh = sys_mkstemp_fresh [OF mk ok]
    and sc = map_backing_file_success [OF run]
  from em(5) [OF ok] have d0: "dirents s0 p = None"
    and d1: "dirents s1 = (dirents s0)(p \<mapsto> length (inodes s0))"
    and f1: "fds s1 = (fd, length (inodes s0)) # fds s0"
    and i1: "inodes s1 = inodes s0 @ [\<lparr>f_size = 0, f_data = (\<lambda>_. 0)\<rparr>]"
    by blast+
  show "h = 0" by (rule sc(1))
  show "base = region s0" by (simp add: sc(2) em(2))
  show "dirents s' = dirents s0" using d0 by (simp add: sc(3) d1 fun_eq_iff)
  show "map_of (fds s') = map_of (fds s0)"
  proof
    fix k show "map_of (fds s') k = map_of (fds s0) k"
      using fresh sc(4) sc(5) [of k] by (cases "k = fd") (simp_all add: f1)
  qed
  from sc(7) obtain ino where ino: "map_of (fds s1) fd = Some ino" and nn: "0 \<le> sint capacity"
    and i': "inodes s' = (inodes s1)[ino := \<lparr>f_size = nat (sint capacity),
               f_data = (\<lambda>off. if off < min (f_size (inodes s1 ! ino)) (nat (sint capacity))
                                then f_data (inodes s1 ! ino) off else 0)\<rparr>]"
    and v': "vm s' =
              (\<lambda>a. if a - (base + capacity) < capacity
                    then Some (Cell PROT_READ_WRITE True (File_at ino (unat (a - (base + capacity)))) None)
                    else if a - base < capacity
                    then Some (Cell PROT_READ_WRITE True (File_at ino (unat (a - base))) None)
                    else if a - base < 2 * capacity then Some (Cell PROT_NONE True Anon None)
                    else vm s1 a)"
    by blast
  from ino have ino_eq: "ino = length (inodes s0)" by (simp add: f1)
  show "capacity < 2 ^ 63" using nn by (rule sint_nonneg_less)
  show "inodes s' = inodes s0 @ [\<lparr>f_size = unat capacity, f_data = (\<lambda>_. 0)\<rparr>]"
    unfolding i' ino_eq i1 by (simp add: sint_nonneg_less(2) [OF nn])
  show "vm s' = ring_vm base capacity (length (inodes s0)) (vm s0)"
    unfolding v' ino_eq ring_vm_def em(1) ..
  show "trace s' = trace s0 @
           [Mkstemp t, Unlink p, Ftruncate fd (sint capacity),
            Mmap 0 (2 * capacity) PROT_NONE MMAP_FLAGS (- 1),
            Mmap base capacity PROT_READ_WRITE [MAP_FIXED, MAP_PRIVATE] fd,
            Mmap (base + capacity) capacity PROT_READ_WRITE [MAP_FIXED, MAP_PRIVATE] fd,
            Close fd]"
    by (simp add: sc(6) em(3))
qed


lemma map_backing_file_calls:
  "\<exists>rest. trace (snd (map_backing_file capacity fd p s)) = trace s @ Unlink p # rest
        \<and> (\<forall>t. Mkstemp t \<notin> set rest)"
  by (auto simp: map_backing_file_def Let_def trace_munmap split: prod.split option.split
      dest!: trace_unlink trace_ftruncate trace_mmap trace_close)

text \<open>
  Claim C4, as the code has it.  Let the capacity pass both checks.  The first system call
  is \<^verbatim>\<open>mkstemp\<close> on the template under \<^verbatim>\<open>/dev/shm\<close>.  If it yields a descriptor, the
  very next call unlinks the file just created and no other \<^verbatim>\<open>mkstemp\<close> follows.  Only
  if it fails is \<^verbatim>\<open>mkstemp\<close> called on the template under \<^verbatim>\<open>/tmp\<close>; again the very
  next call unlinks the file, or, if this attempt fails too, the function throws a system
  error with no further call.  After a successful construction neither the name nor the
  descriptor persists: the directory is as before the call, the table of open descriptors
  is as before the call, the last call made is the \<^verbatim>\<open>close\<close> of the descriptor, and what
  remains are the two mappings of the file in the address space.
\<close>

theorem create_memory_mapped_files_backing_file:
  assumes valid: "\<exists>k. unat capacity = 2 ^ k" "get_page_size s \<noteq> 0"
      "unat (get_page_size s) dvd unat capacity"
    and shm: "sys_mkstemp ''/dev/shm/quill-XXXXXX'' s = ((fd0, shm_path), s1)"
    and tmp: "sys_mkstemp ''/tmp/quill-XXXXXX'' s1 = ((fd1, tmp_path), s2)"
    and run: "create_memory_mapped_files capacity s = (r, s')"
  shows "(if \<not> fd0 < 0 then
           \<exists>rest. calls_made s s' = Mkstemp ''/dev/shm/quill-XXXXXX'' # Unlink shm_path # rest
                \<and> (\<forall>t. Mkstemp t \<notin> set rest)
         else if \<not> fd1 < 0 then
           \<exists>rest. calls_made s s' =
                  Mkstemp ''/dev/shm/quill-XXXXXX'' # Mkstemp ''/tmp/quill-XXXXXX'' #
                  Unlink tmp_path # rest
                \<and> (\<forall>t. Mkstemp t \<notin> set rest)
         else calls_made s s' = [Mkstemp ''/dev/shm/quill-XXXXXX'', Mkstemp ''/tmp/quill-XXXXXX'']
            \<and> r = Inl System_error)
       \<and> (\<forall>base h. r = Inr (base, h) \<longrightarrow>
             h = 0
           \<and> dirents s' = dirents s
           \<and> map_of (fds s') = map_of (fds s)
           \<and> last (calls_made s s') = Close (if fd0 < 0 then fd1 else fd0)
           \<and> vm s' = ring_vm base capacity (length (inodes s)) (vm s))"
proof -
  from valid have ok: "is_pow_of_two capacity" "capacity mod get_page_size s = 0"
    by (simp_all add: is_pow_of_two_unat multiple_of_iff)
  note e0 = sys_mkstemp_effect [OF shm] and e1 = sys_mkstemp_effect [OF tmp]
  show ?thesis
  proof (cases "fd0 < 0")
    case False
    with ok valid(2) shm run have m: "map_backing_file capacity fd0 shm_path s1 = (r, s')"
      by (simp add: create_memory_mapped_files_def)
    from map_backing_file_calls [of capacity fd0 shm_path s1] m e0(3)
    have calls: "\<exists>rest. calls_made s s' = Mkstemp ''/dev/shm/quill-XXXXXX'' # Unlink shm_path # rest
                \<and> (\<forall>t. Mkstemp t \<notin> set rest)"
      by (auto simp: calls_made_def)
    have "h = 0 \<and> dirents s' = dirents s \<and> map_of (fds s') = map_of (fds s)
           \<and> last (calls_made s s') = Close fd0
           \<and> vm s' = ring_vm base capacity (length (inodes s)) (vm s)"
      if "r = Inr (base, h)" for base h
      using map_backing_file_after_mkstemp [OF shm False m [unfolded that]]
      by (simp add: calls_made_def)
    with False calls show ?thesis by simp
  next
    case True
    note fd0 = True
    show ?thesis
    proof (cases "fd1 < 0")
      case True
      with fd0 ok valid(2) shm tmp run have "r = Inl System_error" "s' = s2"
        by (simp_all add: create_memory_mapped_files_def)
      with fd0 True e0(3) e1(3) show ?thesis by (simp add: calls_made_def)
    next
      case False
      with fd0 ok valid(2) shm tmp run have m: "map_backing_file capacity fd1 tmp_path s2 = (r, s')"
        by (simp add: create_memory_mapped_files_def)
      from map_backing_file_calls [of capacity fd1 tmp_path s2] m e0(3) e1(3)
      have calls: "\<exists>rest. calls_made s s' =
                  Mkstemp ''/dev/shm/quill-XXXXXX'' # Mkstemp ''/tmp/quill-XXXXXX'' #
                  Unlink tmp_path # rest
                \<and> (\<forall>t. Mkstemp t \<notin> set rest)"
        by (auto simp: calls_made_def)
      have "h = 0 \<and> dirents s' = dirents s \<and> map_of (fds s') = map_of (fds s)
           \<and> last (calls_made s s') = Close fd1
           \<and> vm s' = ring_vm base capacity (length (inodes s)) (vm s)"
        if "r = Inr (base, h)" for base h
        using map_backing_file_after_mkstemp [OF tmp False m [unfolded that]] e0(4) [OF fd0] e0(1,3)
        by (simp add: calls_made_def)
      with fd0 False calls show ?thesis by simp
    qed
  qed
qed


theorem create_memory_mapped_files_backing_file_witness:
  "(\<exists>k. unat (4096 :: size_t) = 2 ^ k) \<and> get_page_size (boot [Fails]) \<noteq> 0
 \<and> unat (get_page_size (boot [Fails])) dvd unat (4096 :: size_t)
 \<and> fst (fst (sys_mkstemp ''/dev/shm/quill-XXXXXX'' (boot [Fails]))) < 0
 \<and> \<not> fst (fst (sys_mkstemp ''/tmp/quill-XXXXXX''
            (snd (sys_mkstemp ''/dev/shm/quill-XXXXXX'' (boot [Fails]))))) < 0
 \<and> fst (create_memory_mapped_files 4096 (boot [Fails])) = Inr (0x7f0000000000, 0)
 \<and> (\<exists>rest. calls_made (boot [Fails]) (snd (create_memory_mapped_files 4096 (boot [Fails]))) =
        Mkstemp ''/dev/shm/quill-XXXXXX'' # Mkstemp ''/tmp/quill-XXXXXX'' #
        Unlink ''/tmp/quill-a1B2c3'' # rest
      \<and> (\<forall>t. Mkstemp t \<notin> set rest))
 \<and> dirents (snd (create_memory_mapped_files 4096 (boot [Fails]))) = dirents (boot [Fails])
 \<and> map_of (fds (snd (create_memory_mapped_files 4096 (boot [Fails])))) = map_of (fds (boot [Fails]))
 \<and> last (calls_made (boot [Fails]) (snd (create_memory_mapped_files 4096 (boot [Fails])))) = Close 3
 \<and> vm (snd (create_memory_mapped_files 4096 (boot [Fails]))) =
       ring_vm 0x7f0000000000 4096 1 (vm (boot [Fails]))"
proof -
  define B where "B = boot [Fails]"
  define M0 where "M0 = sys_mkstemp ''/dev/shm/quill-XXXXXX'' B"
  define M1 where "M1 = sys_mkstemp ''/tmp/quill-XXXXXX'' (snd M0)"
  define R where "R = create_memory_mapped_files 4096 B"
  have "is_pow_of_two 4096" by (rule is_pow_of_two_4096)
  with is_pow_of_two_unat [of 4096] have v1: "\<exists>k. unat (4096 :: size_t) = 2 ^ k" by blast
  have v2: "get_page_size B \<noteq> 0" by (simp add: B_def get_page_size_boot)
  have v3: "unat (get_page_size B) dvd unat (4096 :: size_t)"
    by (simp add: B_def get_page_size_boot)
  have shm: "sys_mkstemp ''/dev/shm/quill-XXXXXX'' B = ((fst (fst M0), snd (fst M0)), snd M0)"
    by (simp add: M0_def)
  have tmp: "sys_mkstemp ''/tmp/quill-XXXXXX'' (snd M0) = ((fst (fst M1), snd (fst M1)), snd M1)"
    by (simp add: M1_def)
  have run: "create_memory_mapped_files 4096 B = (fst R, snd R)"
    by (simp add: R_def)
  have f0: "fst (fst M0) < 0" by (simp add: M0_def B_def run_defs)
  have f1: "\<not> fst (fst M1) < 0" "fst (fst M1) = 3" "snd (fst M1) = ''/tmp/quill-a1B2c3''"
    by (simp_all add: M1_def M0_def B_def run_defs)
  have r: "fst R = Inr (0x7f0000000000, 0)"
    by (simp add: R_def B_def run_defs is_pow_of_two_4096)
  have i: "length (inodes B) = 1" by (simp add: B_def boot_def)
  note T = create_memory_mapped_files_backing_file [OF v1 v2 v3 shm tmp run]
  from T f0 f1 have c: "\<exists>rest. calls_made B (snd R) =
        Mkstemp ''/dev/shm/quill-XXXXXX'' # Mkstemp ''/tmp/quill-XXXXXX'' #
        Unlink ''/tmp/quill-a1B2c3'' # rest
      \<and> (\<forall>t. Mkstemp t \<notin> set rest)"
    by simp
  from T r f0 f1 i have d: "dirents (snd R) = dirents B" "map_of (fds (snd R)) = map_of (fds B)"
    "last (calls_made B (snd R)) = Close 3"
    "vm (snd R) = ring_vm 0x7f0000000000 4096 1 (vm B)"
    by simp_all
  from v1 v2 v3 f0 f1(1) r c d show ?thesis
    unfolding B_def M0_def M1_def R_def by blast
qed

text \<open>
  Claim C4 as the spec words it says that after a successful construction only the file
  descriptor persists.  On the process \<open>boot []\<close>, where every call succeeds, the
  construction of a ring of 4096 bytes succeeds, its last call closes descriptor 3, and
  descriptor 3 is not open afterwards: the table of descriptors is the one of \<open>boot []\<close>.
\<close>

theorem descriptor_closed_after_success:
  "fst (create_memory_mapped_files 4096 (boot [])) = Inr (0x7f0000000000, 0)
 \<and> trace (snd (create_memory_mapped_files 4096 (boot []))) =
       [Mkstemp ''/dev/shm/quill-XXXXXX'', Unlink ''/dev/shm/quill-a1B2c3'', Ftruncate 3 4096,
        Mmap 0 8192 PROT_NONE [MAP_PRIVATE, MAP_ANONYMOUS, MAP_POPULATE] (- 1),
        Mmap 0x7f0000000000 4096 PROT_READ_WRITE [MAP_FIXED, MAP_PRIVATE] 3,
        Mmap 0x7f0000001000 4096 PROT_READ_WRITE [MAP_FIXED, MAP_PRIVATE] 3,
        Close 3]
 \<and> fds (snd (create_memory_mapped_files 4096 (boot []))) = fds (boot [])
 \<and> map_of (fds (snd (create_memory_mapped_files 4096 (boot [])))) 3 = None"
  by (simp add: run_defs is_pow_of_two_4096)

section \<open>The two halves of the region\<close>

text \<open>Whenever the construction succeeds, for whatever capacity and in whatever state,
  the two halves are private mappings of one zero-filled file: each half reads 0 at every
  offset, and a byte written through one half is read back through that half and not
  through the other.  Had the mappings been shared, the two addresses would alias.\<close>

lemma create_success:
  assumes "create_memory_mapped_files capacity s = (Inr (base, h), s')"
  shows "capacity < 2 ^ 63"
    and "inodes s' = inodes s @ [\<lparr>f_size = unat capacity, f_data = (\<lambda>_. 0)\<rparr>]"
    and "vm s' = ring_vm base capacity (length (inodes s)) (vm s)"
proof -
  obtain fd0 p0 s1 where m0: "sys_mkstemp ''/dev/shm/quill-XXXXXX'' s = ((fd0, p0), s1)"
    by (metis surj_pair)
  obtain fd1 p1 s2 where m1: "sys_mkstemp ''/tmp/quill-XXXXXX'' s1 = ((fd1, p1), s2)"
    by (metis surj_pair)
  from assms have ok: "is_pow_of_two capacity" "get_page_size s \<noteq> 0" "capacity mod get_page_size s = 0"
    by (auto simp: create_memory_mapped_files_def split: if_splits)
  have "capacity < 2 ^ 63
      \<and> inodes s' = inodes s @ [\<lparr>f_size = unat capacity, f_data = (\<lambda>_. 0)\<rparr>]
      \<and> vm s' = ring_vm base capacity (length (inodes s)) (vm s)"
  proof (cases "fd0 < 0")
    case False
    with ok m0 assms have m: "map_backing_file capacity fd0 p0 s1 = (Inr (base, h), s')"
      by (simp add: create_memory_mapped_files_def)
    from map_backing_file_after_mkstemp [OF m0 False m] show ?thesis by simp
  next
    case True
    note e0 = sys_mkstemp_effect [OF m0]
    show ?thesis
    proof (cases "fd1 < 0")
      case True
      with \<open>fd0 < 0\<close> ok m0 m1 assms show ?thesis
        by (simp add: create_memory_mapped_files_def)
    next
      case False
      with \<open>fd0 < 0\<close> ok m0 m1 assms have m: "map_backing_file capacity fd1 p1 s2 = (Inr (base, h), s')"
        by (simp add: create_memory_mapped_files_def)
      from map_backing_file_after_mkstemp [OF m1 False m] e0(1) e0(4) [OF \<open>fd0 < 0\<close>]
      show ?thesis by simp
    qed
  qed
  then show "capacity < 2 ^ 63"
    and "inodes s' = inodes s @ [\<lparr>f_size = unat capacity, f_data = (\<lambda>_. 0)\<rparr>]"
    and "vm s' = ring_vm base capacity (length (inodes s)) (vm s)"
    by simp_all
qed

lemma private_halves_never_alias:
  assumes run: "create_memory_mapped_files capacity s = (Inr (base, h), s')"
    and off: "off < capacity"
  shows "mem_read s' (base + off) = Some 0"
    and "mem_read s' (base + capacity + off) = Some 0"
    and "mem_write (base + off) v s' \<noteq> None"
    and "mem_read (the (mem_write (base + off) v s')) (base + off) = Some v"
    and "mem_read (the (mem_write (base + off) v s')) (base + capacity + off) = Some 0"
    and "mem_write (base + capacity + off) v s' \<noteq> None"
    and "mem_read (the (mem_write (base + capacity + off) v s')) (base + capacity + off) = Some v"
    and "mem_read (the (mem_write (base + capacity + off) v s')) (base + off) = Some 0"
proof -
  note cs = create_success [OF run]
  let ?ino = "length (inodes s)"
  from off have o: "unat off < unat capacity" by (simp add: word_less_nat_alt)
  from off have ne: "capacity \<noteq> 0" by auto
  have lo: "vm s' (base + off) = Some (Cell PROT_READ_WRITE True (File_at ?ino (unat off)) None)"
    using first_half_not_in_second [OF cs(1) off] off
    by (simp add: cs(3) ring_vm_def)
  have hi: "vm s' (base + capacity + off) =
      Some (Cell PROT_READ_WRITE True (File_at ?ino (unat off)) None)"
    using off by (simp add: cs(3) ring_vm_def add.assoc)
  have fl: "?ino < length (inodes s')" "f_size (inodes s' ! ?ino) = unat capacity"
    "f_data (inodes s' ! ?ino) (unat off) = 0"
    by (simp_all add: cs(2))
  have diff: "base + capacity + off \<noteq> base + off" using ne by simp
  show "mem_read s' (base + off) = Some 0"
    using lo fl o by (simp add: mem_read_def)
  show "mem_read s' (base + capacity + off) = Some 0"
    using hi fl o by (simp add: mem_read_def)
  show "mem_write (base + off) v s' \<noteq> None"
    "mem_read (the (mem_write (base + off) v s')) (base + off) = Some v"
    "mem_read (the (mem_write (base + off) v s')) (base + capacity + off) = Some 0"
    using lo hi fl o diff by (simp_all add: mem_write_def mem_read_def)
  show "mem_write (base + capacity + off) v s' \<noteq> None"
    "mem_read (the (mem_write (base + capacity + off) v s')) (base + capacity + off) = Some v"
    "mem_read (the (mem_write (base + capacity + off) v s')) (base + off) = Some 0"
    using lo hi fl o diff by (simp_all add: mem_write_def mem_read_def)
qed

lemma shared_mappings_alias:
  assumes "vm s a = Some (Cell PROT_READ_WRITE False (File_at ino off) None)"
    and "vm s b = Some (Cell PROT_READ_WRITE False (File_at ino off) None)"
    and "ino < length (inodes s)" "off < f_size (inodes s ! ino)"
  shows "mem_write a v s \<noteq> None"
    and "mem_read (the (mem_write a v s)) a = Some v"
    and "mem_read (the (mem_write a v s)) b = Some v"
  using assms by (simp_all add: mem_write_def mem_read_def Let_def)


text \<open>
  Claim C1 asks that a byte written at \<open>base + o\<close> is read at \<open>base + capacity + o\<close>.
  Both file mappings are made with \<^verbatim>\<open>MAP_FIXED | MAP_PRIVATE\<close> (lines 312 and 323), so a
  write goes to a private copy of the page.  On the process \<open>boot []\<close> with a capacity of
  4096 bytes the construction succeeds at base \<open>0x7f0000000000\<close>; the byte at the base
  reads 0; writing 7 there succeeds and the base then reads 7, but the same offset of the
  second half, \<open>base + 4096\<close>, still reads 0.
\<close>

theorem private_mappings_do_not_alias:
  "fst (create_memory_mapped_files 4096 (boot [])) = Inr (0x7f0000000000, 0)
 \<and> mem_read (snd (create_memory_mapped_files 4096 (boot []))) 0x7f0000000000 = Some 0
 \<and> mem_write 0x7f0000000000 7 (snd (create_memory_mapped_files 4096 (boot []))) \<noteq> None
 \<and> mem_read (the (mem_write 0x7f0000000000 7 (snd (create_memory_mapped_files 4096 (boot [])))))
       0x7f0000000000 = Some 7
 \<and> mem_read (the (mem_write 0x7f0000000000 7 (snd (create_memory_mapped_files 4096 (boot [])))))
       (0x7f0000000000 + 4096) = Some 0"
  by (simp add: run_defs is_pow_of_two_4096 mem_read_def mem_write_def)

section \<open>The error branches\<close>

text \<open>In whatever state: when \<^verbatim>\<open>unlink\<close> fails the function throws with the descriptor
  still open; on every error branch after a successful \<^verbatim>\<open>unlink\<close> the descriptor is
  closed and every address is mapped as before the call or not mapped at all.  The second
  fact needs what a kernel provides: the place it picks for the reservation is a multiple
  of the page size and has room for \<open>2 * capacity\<close> bytes, and the capacity is a multiple
  of the page size.\<close>

lemma unlink_failure_leaks:
  assumes mk: "sys_mkstemp t s0 = ((fd, p), s1)" and ok: "\<not> fd < 0"
    and fails: "fst (sys_unlink p s1) = - 1"
  shows "fst (map_backing_file capacity fd p s1) = Inl System_error"
    and "map_of (fds s0) fd = None"
    and "map_of (fds (snd (map_backing_file capacity fd p s1))) fd = Some (length (inodes s0))"
proof -
  obtain r3 s3 where u: "sys_unlink p s1 = (r3, s3)" by (metis surj_pair)
  with fails have r3: "r3 = - 1" by simp
  from u r3 have m: "map_backing_file capacity fd p s1 = (Inl System_error, s3)"
    by (simp add: map_backing_file_def)
  then show "fst (map_backing_file capacity fd p s1) = Inl System_error" by simp
  show "map_of (fds s0) fd = None" using mk ok by (rule sys_mkstemp_fresh)
  from sys_mkstemp_effect(5) [OF mk ok] have "fds s1 = (fd, length (inodes s0)) # fds s0" by blast
  with sys_unlink_effect(4) [OF u] m
  show "map_of (fds (snd (map_backing_file capacity fd p s1))) fd = Some (length (inodes s0))"
    by simp
qed

lemma in_first_half:
  fixes capacity x :: size_t
  assumes "capacity < 2 ^ 63" "x - capacity < capacity"
  shows "x < 2 * capacity"
proof -
  have "x = capacity + (x - capacity)" by simp
  with both_halves_in_range(2) [OF assms] show ?thesis by simp
qed

lemma later_error_branches_clean_up:
  assumes run: "map_backing_file capacity fd p s = (Inl e, s')"
    and unlinked: "fst (sys_unlink p s) \<noteq> - 1"
    and kernel: "sc_pagesize s \<noteq> 0" "unat (region s) mod unat (sc_pagesize s) = 0"
      "unat capacity mod unat (sc_pagesize s) = 0" "unat (region s) + 2 * unat capacity \<le> 2 ^ 64"
  shows "map_of (fds s') fd = None" and "vm s' a = vm s a \<or> vm s' a = None"
proof -
  obtain r3 s3 where u: "sys_unlink p s = (r3, s3)" by (metis surj_pair)
  with unlinked have ru: "r3 \<noteq> - 1" by simp
  obtain r4 s4 where f: "sys_ftruncate fd (sint capacity) s3 = (r4, s4)" by (metis surj_pair)
  note eu = sys_unlink_effect [OF u] and ef = sys_ftruncate_effect [OF f]
  have "map_of (fds s') fd = None \<and> (vm s' a = vm s a \<or> vm s' a = None)"
  proof (cases "r4 = - 1")
    case True
    obtain r s'' where c: "sys_close fd s4 = (r, s'')" by (metis surj_pair)
    from run u ru f True c have "s' = s''" by (simp add: map_backing_file_def)
    with sys_close_effect [OF c] ef(1) eu(1) show ?thesis by simp
  next
    case False
    note rf = False
    from ef(7) [OF rf] have "0 \<le> sint capacity" by blast
    then have cap: "capacity < 2 ^ 63" by (rule sint_nonneg_less)
    obtain res s5 where m0: "sys_mmap 0 (2 * capacity) PROT_NONE MMAP_FLAGS (- 1) s4 = (res, s5)"
      by (metis surj_pair)
    note e0 = sys_mmap_effect [OF m0]
    show ?thesis
    proof (cases res)
      case None
      obtain r s'' where c: "sys_close fd s5 = (r, s'')" by (metis surj_pair)
      from run u ru f rf m0 None c have "s' = s''" by (simp add: map_backing_file_def)
      with sys_close_effect [OF c] e0(6) [OF None] ef(1) eu(1) show ?thesis by simp
    next
      case (Some address)
      from e0(7) [OF Some] have v5: "vm s5 = (\<lambda>a. if a - address < 2 * capacity
          then Some (Cell PROT_NONE True Anon None) else vm s a)"
        by (simp add: MMAP_FLAGS_def ef(1) eu(1) cong: if_cong)
      from e0(7) [OF Some] have addr: "address = region s"
        by (simp add: MMAP_FLAGS_def ef(2) eu(2))
      from m0 Some have "sys_mmap 0 (2 * capacity) PROT_NONE MMAP_FLAGS (- 1) s4 = (Some address, s5)"
        by simp
      then have n0: "2 * capacity \<noteq> 0" by (rule sys_mmap_length)
      have d: "unat (2 * capacity) = 2 * unat capacity" using cap by (rule double_capacity)
      from kernel(3) have "unat (sc_pagesize s) dvd unat capacity" by (simp add: dvd_eq_mod_eq_0)
      then have "unat (sc_pagesize s) dvd 2 * unat capacity" by (rule dvd_mult)
      with d have m: "unat (2 * capacity) mod unat (sc_pagesize s) = 0"
        by (simp add: dvd_eq_mod_eq_0)
      have exact: "vm (sys_munmap address (2 * capacity) t) =
          (\<lambda>x. if x - address < 2 * capacity then None else vm t x)"
        if "sc_pagesize t = sc_pagesize s" for t
        using kernel(1,2,4) n0 m d by (intro sys_munmap_exact) (simp_all add: that addr)
      have p5: "sc_pagesize s5 = sc_pagesize s"
        by (simp add: pagesize_mmap [OF m0] pagesize_ftruncate [OF f] pagesize_unlink [OF u])
      obtain o1 s6 where m1: "sys_mmap address capacity PROT_READ_WRITE [MAP_FIXED, MAP_PRIVATE] fd s5
          = (o1, s6)" by (metis surj_pair)
      note e1 = sys_mmap_effect [OF m1]
      have p6: "sc_pagesize s6 = sc_pagesize s" by (simp add: pagesize_mmap [OF m1] p5)
      show ?thesis
      proof (cases "o1 = Some address")
        case False
        have "o1 = None"
        proof (cases o1)
          case (Some b)
          from e1(8) [OF Some] have "b = address" by simp
          with Some False show ?thesis by simp
        qed
        with e1(6) have v6: "vm s6 = vm s5" by simp
        obtain r s'' where c: "sys_close fd (sys_munmap address (2 * capacity) s6) = (r, s'')"
          by (metis surj_pair)
        from run u ru f rf m0 Some m1 False c have "s' = s''"
          by (simp add: map_backing_file_def Let_def)
        with sys_close_effect [OF c] v6 v5 show ?thesis by (simp add: exact [OF p6])
      next
        case True
        from e1(8) [OF True] obtain ino where v6: "vm s6 = (\<lambda>a. if a - address < capacity
            then Some (Cell PROT_READ_WRITE True (File_at ino (unat (a - address))) None)
            else vm s5 a)"
          by (auto cong: if_cong)
        obtain o2 s7 where m2: "sys_mmap (address + capacity) capacity PROT_READ_WRITE
            [MAP_FIXED, MAP_PRIVATE] fd s6 = (o2, s7)" by (metis surj_pair)
        note e2 = sys_mmap_effect [OF m2]
        have p7: "sc_pagesize s7 = sc_pagesize s" by (simp add: pagesize_mmap [OF m2] p6)
        have first: "a - address < 2 * capacity" if "a - address < capacity"
          using both_halves_in_range(1) [OF cap that] .
        have second: "a - address < 2 * capacity" if "a - (address + capacity) < capacity"
          using in_first_half [OF cap, of "a - address"] that by (simp add: diff_diff_eq)
        show ?thesis
        proof (cases "o2 = Some (address + capacity)")
          case False
          have "o2 = None"
          proof (cases o2)
            case (Some b)
            from e2(8) [OF Some] have "b = address + capacity" by simp
            with Some False show ?thesis by simp
          qed
          with e2(6) have v7: "vm s7 = vm s6" by simp
          obtain r s'' where c: "sys_close fd (sys_munmap address (2 * capacity) s7) = (r, s'')"
            by (metis surj_pair)
          from run u ru f rf m0 Some m1 \<open>o1 = Some address\<close> m2 False c have "s' = s''"
            by (simp add: map_backing_file_def Let_def)
          with sys_close_effect [OF c] v7 v6 v5 first show ?thesis
            by (auto simp: exact [OF p7])
        next
          case True
          from e2(8) [OF True] obtain ino' where v7: "vm s7 = (\<lambda>a. if a - (address + capacity) < capacity
              then Some (Cell PROT_READ_WRITE True (File_at ino' (unat (a - (address + capacity)))) None)
              else vm s6 a)"
            by (auto cong: if_cong)
          obtain r8 s8 where c: "sys_close fd s7 = (r8, s8)" by (metis surj_pair)
          from run u ru f rf m0 Some m1 \<open>o1 = Some address\<close> m2 True c
          have s8: "s' = sys_munmap address (2 * capacity) s8"
            by (simp add: map_backing_file_def Let_def split: if_splits)
          have p8: "sc_pagesize s8 = sc_pagesize s" by (simp add: pagesize_close [OF c] p7)
          from s8 sys_close_effect [OF c] v7 v6 v5 first second show ?thesis
            by (auto simp: exact [OF p8] sys_munmap_effect(1-6))
        qed
      qed
    qed
  qed
  then show "map_of (fds s') fd = None" and "vm s' a = vm s a \<or> vm s' a = None" by simp_all
qed

text \<open>A run through the last of these branches: on a process with 4 KiB pages the second
  file mapping fails, the reservation, which starts on a page boundary, is unmapped whole
  and the descriptor is closed.\<close>

lemma failed_second_mapping_cleans_up:
  "fst (create_memory_mapped_files 4096 (boot [Succeeds, Succeeds, Succeeds, Succeeds, Succeeds, Fails]))
     = Inl System_error
 \<and> map_of (fds (snd (create_memory_mapped_files 4096
       (boot [Succeeds, Succeeds, Succeeds, Succeeds, Succeeds, Fails])))) 3 = None
 \<and> vm (snd (create_memory_mapped_files 4096
       (boot [Succeeds, Succeeds, Succeeds, Succeeds, Succeeds, Fails]))) = Map.empty
 \<and> trace (snd (create_memory_mapped_files 4096
       (boot [Succeeds, Succeeds, Succeeds, Succeeds, Succeeds, Fails]))) =
     [Mkstemp ''/dev/shm/quill-XXXXXX'', Unlink ''/dev/shm/quill-a1B2c3'', Ftruncate 3 4096,
      Mmap 0 8192 PROT_NONE MMAP_FLAGS (- 1),
      Mmap 0x7f0000000000 4096 PROT_READ_WRITE [MAP_FIXED, MAP_PRIVATE] 3,
      Mmap 0x7f0000001000 4096 PROT_READ_WRITE [MAP_FIXED, MAP_PRIVATE] 3,
      Munmap 0x7f0000000000 8192, Close 3]"
  by (simp add: run_defs is_pow_of_two_4096 fun_eq_iff) (auto simp: word_less_nat_alt)

text \<open>
  Claim C3 asks that every error branch reached once the descriptor exists closes it.
  When \<^verbatim>\<open>mkstemp\<close> succeeds and \<^verbatim>\<open>unlink\<close> fails (lines 290-293), the function
  throws without closing: on \<open>boot [Succeeds, Fails]\<close> the result is a system error,
  descriptor 3 was not open before the call and is open after it, and the only calls
  made are the \<^verbatim>\<open>mkstemp\<close> and the \<^verbatim>\<open>unlink\<close>.
\<close>

theorem unlink_failure_leaks_descriptor:
  "fst (create_memory_mapped_files 4096 (boot [Succeeds, Fails])) = Inl System_error
 \<and> map_of (fds (boot [Succeeds, Fails])) 3 = None
 \<and> map_of (fds (snd (create_memory_mapped_files 4096 (boot [Succeeds, Fails])))) 3 = Some 1
 \<and> trace (snd (create_memory_mapped_files 4096 (boot [Succeeds, Fails]))) =
       [Mkstemp ''/dev/shm/quill-XXXXXX'', Unlink ''/dev/shm/quill-a1B2c3'']"
  by (simp add: run_defs is_pow_of_two_4096)

section \<open>The flush barrier\<close>

lemma acks_simps [simp]:
  "acks [] = 0"
  "acks (r # rs) = (if kind r = Flush_ack then 1 else 0) + acks rs"
  "acks (rs @ rs') = acks rs + acks rs'"
  by (simp_all add: acks_def)

lemma flush_step_inv: "flush_inv s \<Longrightarrow> flush_inv (flush_step s)"
  by (cases "pc s"; cases "bpc s";
      simp add: flush_inv_def flush_step_def try_emplace_def is_running_def;
      auto)

lemma backend_step_inv: "flush_inv s \<Longrightarrow> flush_inv (backend_step s)"
  by (cases "pc s"; cases "bpc s";
      simp add: flush_inv_def backend_step_def is_running_def split: list.split record_kind.split;
      auto)

lemma step_inv: "flush_inv s \<Longrightarrow> flush_inv (step e s)"
proof (cases e)
  case Spurious_wakeup
  assume "flush_inv s"
  then show ?thesis by (simp add: Spurious_wakeup step_def flush_inv_def is_running_def)
qed (simp_all add: step_def flush_step_inv backend_step_inv)

lemma run_inv: "flush_inv s \<Longrightarrow> flush_inv (run es s)"
  by (induction es arbitrary: s) (simp_all add: step_inv)

lemma at_call_inv: "at_call s \<Longrightarrow> is_running s \<Longrightarrow> flush_inv s"
  by (simp add: at_call_def flush_inv_def)





lemmas manager_defs = example_manager_def step_def flush_step_def backend_step_def try_emplace_def
  ring_free_def is_running_def at_call_def acks_def


section \<open>Flushing without a backend\<close>

lemma stopped_step:
  assumes "\<not> is_running s" "pc s = Returned" "bpc s = Idle"
  shows "\<not> is_running (step e s)" "pc (step e s) = Returned" "bpc (step e s) = Idle"
    "ring (step e s) = ring s" "written (step e s) = written s" "invoked (step e s) = invoked s"
    "mtx (step e s) = mtx s" "done_flag (step e s) = done_flag s"
  using assms by (cases e; simp add: step_def flush_step_def backend_step_def is_running_def)+

lemma stopped_run:
  assumes "\<not> is_running s" "pc s = Returned" "bpc s = Idle"
  shows "pc (run es s) = Returned \<and> ring (run es s) = ring s \<and> written (run es s) = written s
       \<and> invoked (run es s) = invoked s \<and> mtx (run es s) = mtx s
       \<and> done_flag (run es s) = done_flag s"
  using assms
proof (induction es arbitrary: s)
  case Nil
  then show ?case by simp
next
  case (Cons e es)
  from Cons.IH [OF stopped_step(1-3) [OF Cons.prems]] stopped_step(4-8) [OF Cons.prems, of e]
  show ?case by simp
qed

text \<open>
  Claim C8.  If the backend worker is not running when \<open>flush\<close> is called, the first step
  of \<open>flush\<close> is its return and changes nothing else: no record is posted, the mutex is
  not taken, nothing is waited for.  Whatever is scheduled afterwards, \<open>flush\<close> stays
  returned, and the ring, the events written, the callbacks invoked, the mutex and the flag
  stay as they were at the call: no event logged before is flushed.
\<close>

theorem flush_without_backend_returns_at_once:
  assumes "\<not> is_running s" and "pc s = At_entry"
  shows "flush_step s = s\<lparr>pc := Returned\<rparr>
       \<and> (bpc s = Idle \<longrightarrow>
            pc (run (Flush_step # es) s) = Returned
          \<and> ring (run (Flush_step # es) s) = ring s
          \<and> written (run (Flush_step # es) s) = written s
          \<and> invoked (run (Flush_step # es) s) = invoked s
          \<and> mtx (run (Flush_step # es) s) = mtx s
          \<and> done_flag (run (Flush_step # es) s) = done_flag s)"
proof -
  from assms have 1: "flush_step s = s\<lparr>pc := Returned\<rparr>" by (simp add: flush_step_def)
  have "pc (run es (s\<lparr>pc := Returned\<rparr>)) = Returned
      \<and> ring (run es (s\<lparr>pc := Returned\<rparr>)) = ring s
      \<and> written (run es (s\<lparr>pc := Returned\<rparr>)) = written s
      \<and> invoked (run es (s\<lparr>pc := Returned\<rparr>)) = invoked s
      \<and> mtx (run es (s\<lparr>pc := Returned\<rparr>)) = mtx s
      \<and> done_flag (run es (s\<lparr>pc := Returned\<rparr>)) = done_flag s" if "bpc s = Idle"
    using stopped_run [of "s\<lparr>pc := Returned\<rparr>" es] assms(1) that
    by (simp add: is_running_def)
  with 1 show ?thesis by (simp add: step_def)
qed

theorem flush_without_backend_returns_at_once_witness:
  "\<not> is_running (example_manager 0 Block) \<and> pc (example_manager 0 Block) = At_entry
 \<and> bpc (example_manager 0 Block) = Idle
 \<and> flush_step (example_manager 0 Block) = (example_manager 0 Block)\<lparr>pc := Returned\<rparr>
 \<and> ring (run [Flush_step, Backend_step, Flush_step, Spurious_wakeup, Backend_step]
       (example_manager 0 Block)) = [Frame Log_event 48, Frame Log_event 48]
 \<and> written (run [Flush_step, Backend_step, Flush_step, Spurious_wakeup, Backend_step]
       (example_manager 0 Block)) = []"
proof -
  have a: "\<not> is_running (example_manager 0 Block)" "pc (example_manager 0 Block) = At_entry"
    and b: "bpc (example_manager 0 Block) = Idle"
    and c: "ring (example_manager 0 Block) = [Frame Log_event 48, Frame Log_event 48]"
      "written (example_manager 0 Block) = []"
    by (simp_all add: example_manager_def is_running_def)
  from flush_without_backend_returns_at_once [OF a,
      of "[Backend_step, Flush_step, Spurious_wakeup, Backend_step]"] a b c
  show ?thesis by simp
qed


section \<open>The flush command on a full ring\<close>

lemma step_policy: "step e (s\<lparr>policy := p\<rparr>) = (step e s)\<lparr>policy := p\<rparr>"
  by (cases e; cases "pc s"; cases "bpc s")
     (simp_all add: step_def flush_step_def backend_step_def try_emplace_def ring_free_def
        is_running_def split: list.split record_kind.split)

lemma run_policy: "run es (s\<lparr>policy := p\<rparr>) = (run es s)\<lparr>policy := p\<rparr>"
  by (induction es arbitrary: s) (simp_all add: step_policy)

text \<open>The delay ends: once the backend has written the log events that fill the ring, the
  next turn of the loop posts the command record (provided a command record fits an empty
  ring at all).\<close>

lemma backend_drains:
  assumes "bpc s = Idle" "is_running s" "\<forall>r \<in> set (ring s). kind r = Log_event"
  shows "run (replicate (length (ring s)) Backend_step) s = s\<lparr>ring := [], written := written s @ ring s\<rparr>"
  using assms
proof (induction "ring s" arbitrary: s)
  case Nil
  then show ?case by simp
next
  case (Cons r rs)
  let ?s = "s\<lparr>ring := rs, written := written s @ [r]\<rparr>"
  from Cons.hyps(2) [symmetric] Cons.prems have b: "backend_step s = ?s"
    by (simp add: backend_step_def)
  have "run (replicate (length (ring ?s)) Backend_step) ?s = ?s\<lparr>ring := [], written := written ?s @ ring ?s\<rparr>"
    using Cons.hyps(2) [symmetric] Cons.prems
    by (intro Cons.hyps(1)) (simp_all add: is_running_def)
  with b Cons.hyps(2) [symmetric] show ?case by (simp add: step_def)
qed

lemma run_append: "run (es @ es') s = run es' (run es s)"
  by (induction es arbitrary: s) simp_all

lemma command_posted_once_drained:
  assumes "pc s = At_push" "bpc s = Idle" "is_running s" "\<forall>r \<in> set (ring s). kind r = Log_event"
    and "command_size s \<le> ring_capacity s"
  shows "run (replicate (length (ring s)) Backend_step @ [Flush_step]) s =
           s\<lparr>ring := [Frame Flush_ack (command_size s)], written := written s @ ring s, pc := At_wait\<rparr>"
  using assms
  by (simp add: run_append backend_drains step_def flush_step_def try_emplace_def ring_free_def)

text \<open>
  Claim C9.  In the loop around \<^verbatim>\<open>try_emplace\<close>, a step of \<open>flush\<close> on a ring without room
  for the command record leaves the whole state as it is, so the same push is tried again;
  a step on a ring with room appends the flush-acknowledge record and leaves the loop.  In
  every state of a call made while the backend runs, the record has not been posted as
  long as \<open>flush\<close> is in or before the loop, and once \<open>flush\<close> is past the loop the record
  is on the ring or has been taken by the backend with its callback invoked: it is never
  discarded.  The configured queue-full policy has no part in it: running a schedule from
  a state with another policy gives the same state, up to that policy.
\<close>

theorem flush_ack_never_dropped:
  "(pc s = At_push \<and> \<not> command_size s \<le> ring_free s \<longrightarrow> flush_step s = s)
 \<and> (pc s = At_push \<and> command_size s \<le> ring_free s \<longrightarrow>
       flush_step s = s\<lparr>ring := ring s @ [Frame Flush_ack (command_size s)], pc := At_wait\<rparr>)
 \<and> (at_call s \<and> is_running s \<longrightarrow>
       (pc (run es s) \<in> {At_entry, At_lock, At_push} \<longrightarrow>
          acks (ring (run es s)) + invoked (run es s) = 0)
     \<and> (pc (run es s) \<in> {At_wait, Asleep, Returned} \<longrightarrow>
          acks (ring (run es s)) + invoked (run es s) = 1))
 \<and> run es (s\<lparr>policy := p\<rparr>) = (run es s)\<lparr>policy := p\<rparr>"
proof -
  have 1: "pc s = At_push \<and> \<not> command_size s \<le> ring_free s \<longrightarrow> flush_step s = s"
    by (simp add: flush_step_def try_emplace_def)
  have 2: "pc s = At_push \<and> command_size s \<le> ring_free s \<longrightarrow>
       flush_step s = s\<lparr>ring := ring s @ [Frame Flush_ack (command_size s)], pc := At_wait\<rparr>"
    by (simp add: flush_step_def try_emplace_def)
  have 3: "(pc (run es s) \<in> {At_entry, At_lock, At_push} \<longrightarrow>
          acks (ring (run es s)) + invoked (run es s) = 0)
     \<and> (pc (run es s) \<in> {At_wait, Asleep, Returned} \<longrightarrow>
          acks (ring (run es s)) + invoked (run es s) = 1)"
    if "at_call s" "is_running s"
  proof -
    from that have "flush_inv (run es s)" by (intro run_inv at_call_inv)
    then have "acks (ring (run es s)) + invoked (run es s) =
        (if pc (run es s) \<in> {At_entry, At_lock, At_push} then 0 else 1)"
      by (simp add: flush_inv_def)
    then show ?thesis by auto
  qed
  from 1 2 3 run_policy [of es p s] show ?thesis by blast
qed

theorem flush_ack_never_dropped_witness:
  "pc (run [Flush_step, Flush_step] (example_manager 1 Drop)) = At_push
 \<and> \<not> command_size (run [Flush_step, Flush_step] (example_manager 1 Drop))
       \<le> ring_free (run [Flush_step, Flush_step] (example_manager 1 Drop))
 \<and> flush_step (run [Flush_step, Flush_step] (example_manager 1 Drop)) =
       run [Flush_step, Flush_step] (example_manager 1 Drop)
 \<and> pc (run [Flush_step, Flush_step, Flush_step, Backend_step] (example_manager 1 Drop)) = At_push
 \<and> command_size (run [Flush_step, Flush_step, Flush_step, Backend_step] (example_manager 1 Drop))
       \<le> ring_free (run [Flush_step, Flush_step, Flush_step, Backend_step] (example_manager 1 Drop))
 \<and> ring (flush_step (run [Flush_step, Flush_step, Flush_step, Backend_step] (example_manager 1 Drop)))
       = [Frame Log_event 48, Frame Flush_ack 32]
 \<and> at_call (example_manager 1 Drop) \<and> is_running (example_manager 1 Drop)
 \<and> pc (run [Flush_step, Flush_step, Flush_step, Backend_step, Flush_step, Backend_step, Backend_step]
       (example_manager 1 Drop)) = At_wait
 \<and> acks (ring (run [Flush_step, Flush_step, Flush_step, Backend_step, Flush_step, Backend_step,
       Backend_step] (example_manager 1 Drop)))
   + invoked (run [Flush_step, Flush_step, Flush_step, Backend_step, Flush_step, Backend_step,
       Backend_step] (example_manager 1 Drop)) = 1"
proof -
  define A where "A = run [Flush_step, Flush_step] (example_manager 1 Drop)"
  define B where "B = run [Flush_step, Flush_step, Flush_step, Backend_step] (example_manager 1 Drop)"
  define C where "C = run [Flush_step, Flush_step, Flush_step, Backend_step, Flush_step, Backend_step,
       Backend_step] (example_manager 1 Drop)"
  have a: "pc A = At_push" "\<not> command_size A \<le> ring_free A"
    by (simp_all add: A_def manager_defs)
  have b: "pc B = At_push" "command_size B \<le> ring_free B"
    "ring B = [Frame Log_event 48]" "command_size B = 32"
    by (simp_all add: B_def manager_defs)
  have c: "at_call (example_manager 1 Drop)" "is_running (example_manager 1 Drop)" "pc C = At_wait"
    by (simp_all add: C_def manager_defs)
  from flush_ack_never_dropped [of A] a have 1: "flush_step A = A" by blast
  from flush_ack_never_dropped [of B] b(1,2)
  have "flush_step B = B\<lparr>ring := ring B @ [Frame Flush_ack (command_size B)], pc := At_wait\<rparr>"
    by blast
  with b(3,4) have 2: "ring (flush_step B) = [Frame Log_event 48, Frame Flush_ack 32]" by simp
  from flush_ack_never_dropped [of "example_manager 1 Drop"
      "[Flush_step, Flush_step, Flush_step, Backend_step, Flush_step, Backend_step, Backend_step]"] c
  have 3: "acks (ring C) + invoked C = 1" unfolding C_def by blast
  from a 1 b(1,2) 2 c 3 show ?thesis unfolding A_def B_def C_def by blast
qed

section \<open>Starting the backend\<close>

text \<open>
  Claim C7.  \<open>start_backend_worker\<close> called twice gives the state it gives called once, in
  which the backend is running; from a state without a backend thread, one call and two
  calls both leave exactly one backend thread.
\<close>

theorem backend_start_idempotent:
  "start_backend_worker (start_backend_worker s) = start_backend_worker s
 \<and> is_running (start_backend_worker s)
 \<and> (backend_threads s = 0 \<longrightarrow>
       backend_threads (start_backend_worker s) = 1
     \<and> backend_threads (start_backend_worker (start_backend_worker s)) = 1)"
  by (simp add: start_backend_worker_def backend_worker_run_def is_running_def)

theorem backend_start_idempotent_witness:
  "backend_threads (example_manager 0 Block) = 0
 \<and> backend_threads (start_backend_worker (example_manager 0 Block)) = 1
 \<and> backend_threads (start_backend_worker (start_backend_worker (example_manager 0 Block))) = 1"
proof -
  have "backend_threads (example_manager 0 Block) = 0" by (simp add: example_manager_def)
  with backend_start_idempotent [of "example_manager 0 Block"] show ?thesis by blast
qed

section \<open>The two sinks of the test\<close>

lemma contains_self: "contains (s @ suf) s"
proof (cases "s @ suf")
  case Nil
  then show ?thesis by simp
next
  case (Cons c l)
  have "take (length s) (s @ suf) = s" by simp
  then show ?thesis unfolding Cons by simp
qed

lemma contains_middle: "contains (pre @ s @ suf) s"
  by (induction pre) (simp_all add: contains_self)

lemma log_step_inv:
  assumes "test_inv fmt s"
  shows "test_inv fmt (log_step t s)"
  using assms unfolding log_step_def test_inv_def by auto

lemma drain_step_inv:
  assumes "test_inv fmt s"
  shows "test_inv fmt (drain_step fmt t s)"
proof (cases "rings s t")
  case Nil
  with assms show ?thesis by (simp add: drain_step_def)
next
  case (Cons r rs)
  from assms have eq: "filter (\<lambda>r. thread_index r = u) (dispatched s) @ rings s u =
      map (\<lambda>j. \<lparr>thread_index = u, message_num = j\<rparr>) [0..<next_message s u]" for u
    by (simp add: test_inv_def)
  have "r \<in> set (filter (\<lambda>r. thread_index r = t) (dispatched s) @ rings s t)"
    by (simp add: Cons)
  then have "r \<in> set (map (\<lambda>j. \<lparr>thread_index = t, message_num = j\<rparr>) [0..<next_message s t])"
    by (simp only: eq)
  then have r: "thread_index r = t" by auto
  have "filter (\<lambda>r. thread_index r = u) (dispatched s @ [r]) @ (if u = t then rs else rings s u) =
      map (\<lambda>j. \<lparr>thread_index = u, message_num = j\<rparr>) [0..<next_message s u]" for u
    using eq [of u] r Cons by (cases "u = t") simp_all
  with assms Cons show ?thesis
    by (simp add: drain_step_def test_inv_def)
qed

lemma test_run_inv: "test_inv fmt s \<Longrightarrow> test_inv fmt (test_run fmt es s)"
proof (induction es arbitrary: s)
  case Nil
  then show ?case by simp
next
  case (Cons e es)
  then show ?case by (cases e) (simp_all add: log_step_inv drain_step_inv)
qed

lemma test_start_inv: "test_inv fmt test_start"
  by (simp add: test_inv_def test_start_def)

lemma length_by_key:
  fixes f :: "'a \<Rightarrow> nat"
  assumes "\<forall>x \<in> set xs. f x < n"
  shows "length xs = (\<Sum>t<n. length (filter (\<lambda>x. f x = t) xs))"
  using assms
proof (induction xs)
  case Nil
  show ?case by simp
next
  case (Cons x xs)
  then have x: "f x < n" and xs: "length xs = (\<Sum>t<n. length (filter (\<lambda>x. f x = t) xs))"
    by simp_all
  have "(\<Sum>t<n. length (filter (\<lambda>y. f y = t) (x # xs))) =
      (\<Sum>t<n. (if f x = t then 1 else 0) + length (filter (\<lambda>y. f y = t) xs))"
    by (intro sum.cong) simp_all
  also have "\<dots> = (\<Sum>t<n. if f x = t then 1 else 0) + length xs"
    by (simp add: sum.distrib xs)
  also have "(\<Sum>t<n. if f x = t then 1 else 0) = (if f x \<in> {..<n} then (1::nat) else 0)"
    by (rule sum.delta') (rule finite_lessThan)
  also have "\<dots> = 1" using x by simp
  finally show ?case by simp
qed


text \<open>
  Claim C6.  Take any schedule of the six logging threads and the backend, and any
  choice of what the format engine puts around the expected rendering.  If at the end
  every thread has logged its 500 messages and every ring is drained (the threads are
  joined, every logger is flushed, the backend is stopped), then the JSON file holds
  exactly 3000 records and the text file exactly 3000 lines, and for every thread index
  \<open>t\<close> below 6 and every message number \<open>j\<close> below 500 each of the two files contains the
  string the test expects for \<open>(t, j)\<close>.
\<close>

theorem json_file_logging:
  assumes "test_finished (test_run fmt es test_start)"
  shows "length (json_file (test_run fmt es test_start)) = 3000
       \<and> length (text_file (test_run fmt es test_start)) = 3000
       \<and> (\<forall>t<6. \<forall>j<500.
             file_contains (json_file (test_run fmt es test_start)) (expected_json_string t j)
           \<and> file_contains (text_file (test_run fmt es test_start)) (expected_string t j))"
proof -
  define s where "s = test_run fmt es test_start"
  have "test_inv fmt s" unfolding s_def by (intro test_run_inv test_start_inv)
  then have outside: "number_of_threads \<le> t \<Longrightarrow> next_message s t = 0"
    and eq: "filter (\<lambda>r. thread_index r = t) (dispatched s) @ rings s t =
      map (\<lambda>j. \<lparr>thread_index = t, message_num = j\<rparr>) [0..<next_message s t]"
    and jf: "json_file s = map (json_line fmt) (dispatched s)"
    and tf: "text_file s = map (text_line fmt) (dispatched s)" for t
    by (simp_all add: test_inv_def)
  from assms have fin: "next_message s t = 500" "rings s t = []" if "t < 6" for t
    using that by (simp_all add: test_finished_def s_def list_all_iff number_of_threads_def
        number_of_messages_def)
  have by_thread: "filter (\<lambda>r. thread_index r = t) (dispatched s) =
      map (\<lambda>j. \<lparr>thread_index = t, message_num = j\<rparr>) [0..<500]" if "t < 6" for t
    using eq [of t] fin [OF that] by simp
  have known: "thread_index r < 6" if "r \<in> set (dispatched s)" for r
  proof (rule ccontr)
    assume "\<not> thread_index r < 6"
    then have "next_message s (thread_index r) = 0"
      by (intro outside) (simp add: number_of_threads_def)
    with eq [of "thread_index r"] have "filter (\<lambda>x. thread_index x = thread_index r) (dispatched s) = []"
      by simp
    with that show False by (auto simp: filter_empty_conv)
  qed
  have "length (dispatched s) = (\<Sum>t<6. length (filter (\<lambda>r. thread_index r = t) (dispatched s)))"
    by (rule length_by_key) (simp add: known)
  also have "\<dots> = (\<Sum>t<(6::nat). 500)"
    by (intro sum.cong) (simp_all add: by_thread)
  finally have count: "length (dispatched s) = 3000" by simp
  have present: "\<lparr>thread_index = t, message_num = j\<rparr> \<in> set (dispatched s)"
    if "t < 6" "j < 500" for t j
  proof -
    from that(2) have "\<lparr>thread_index = t, message_num = j\<rparr> \<in>
        set (map (\<lambda>j. \<lparr>thread_index = t, message_num = j\<rparr>) [0..<500])"
      by simp
    then have "\<lparr>thread_index = t, message_num = j\<rparr> \<in>
        set (filter (\<lambda>r. thread_index r = t) (dispatched s))"
      by (simp only: by_thread [OF that(1)])
    then show ?thesis by simp
  qed
  have found: "file_contains (json_file s) (expected_json_string t j)
      \<and> file_contains (text_file s) (expected_string t j)" if "t < 6" "j < 500" for t j
  proof -
    let ?r = "\<lparr>thread_index = t, message_num = j\<rparr>"
    have "contains (json_line fmt ?r) (expected_json_string t j)"
      "contains (text_line fmt ?r) (expected_string t j)"
      by (simp_all add: json_line_def text_line_def contains_middle)
    with present [OF that] show ?thesis
      unfolding file_contains_def list_ex_iff jf tf by auto
  qed
  from count found show ?thesis unfolding s_def [symmetric] by (simp add: jf tf)
qed


lemma test_run_append: "test_run fmt (xs @ ys) s = test_run fmt ys (test_run fmt xs s)"
  by (induction xs arbitrary: s) simp_all

lemma run_logs:
  assumes "t < number_of_threads" "next_message s t + n \<le> number_of_messages"
  shows "next_message (test_run fmt (replicate n (Log t)) s) = (next_message s)(t := next_message s t + n)
       \<and> (\<forall>u. u \<noteq> t \<longrightarrow> rings (test_run fmt (replicate n (Log t)) s) u = rings s u)
       \<and> length (rings (test_run fmt (replicate n (Log t)) s) t) = length (rings s t) + n"
  using assms
proof (induction n arbitrary: s)
  case 0
  show ?case by simp
next
  case (Suc n)
  let ?s = "log_step t s"
  from Suc.prems have s: "next_message ?s = (next_message s)(t := next_message s t + 1)"
    "\<And>u. u \<noteq> t \<Longrightarrow> rings ?s u = rings s u" "length (rings ?s t) = length (rings s t) + 1"
    by (simp_all add: log_step_def)
  from Suc.prems s(1) have "next_message ?s t + n \<le> number_of_messages" by simp
  from Suc.IH [OF Suc.prems(1) this] s show ?case by (simp add: fun_eq_iff)
qed

lemma run_drains:
  assumes "n \<le> length (rings s t)"
  shows "next_message (test_run fmt (replicate n (Drain t)) s) = next_message s
       \<and> rings (test_run fmt (replicate n (Drain t)) s) = (rings s)(t := drop n (rings s t))"
  using assms
proof (induction n arbitrary: s)
  case 0
  show ?case by simp
next
  case (Suc n)
  then obtain r rs where r: "rings s t = r # rs" by (cases "rings s t") auto
  let ?s = "drain_step fmt t s"
  from r have s: "next_message ?s = next_message s" "rings ?s = (rings s)(t := rs)"
    by (simp_all add: drain_step_def)
  from Suc.prems r s(2) have "n \<le> length (rings ?s t)" by simp
  from Suc.IH [OF this] s r show ?case by (simp add: fun_eq_iff)
qed

lemma thread_by_thread_upto:
  assumes "k \<le> number_of_threads"
  shows "next_message (test_run fmt
           (concat (map (\<lambda>t. replicate number_of_messages (Log t) @ replicate number_of_messages (Drain t))
              [0..<k])) test_start) = (\<lambda>t. if t < k then number_of_messages else 0)
       \<and> rings (test_run fmt
           (concat (map (\<lambda>t. replicate number_of_messages (Log t) @ replicate number_of_messages (Drain t))
              [0..<k])) test_start) = (\<lambda>_. [])"
  using assms
proof (induction k)
  case 0
  show ?case by (simp add: test_start_def)
next
  case (Suc k)
  define s where "s = test_run fmt
      (concat (map (\<lambda>t. replicate number_of_messages (Log t) @ replicate number_of_messages (Drain t))
         [0..<k])) test_start"
  from Suc have s: "next_message s = (\<lambda>t. if t < k then number_of_messages else 0)"
    "rings s = (\<lambda>_. [])"
    by (simp_all add: s_def)
  define s1 where "s1 = test_run fmt (replicate number_of_messages (Log k)) s"
  from Suc.prems s(1) have "k < number_of_threads" "next_message s k + number_of_messages \<le> number_of_messages"
    by simp_all
  from run_logs [OF this, of fmt] s
  have s1: "next_message s1 = (\<lambda>t. if t < Suc k then number_of_messages else 0)"
    "\<And>u. u \<noteq> k \<Longrightarrow> rings s1 u = []" "length (rings s1 k) = number_of_messages"
    by (auto simp: s1_def fun_eq_iff)
  define s2 where "s2 = test_run fmt (replicate number_of_messages (Drain k)) s1"
  from s1(3) have "number_of_messages \<le> length (rings s1 k)" by simp
  from run_drains [OF this, of fmt] s1
  have s2: "next_message s2 = (\<lambda>t. if t < Suc k then number_of_messages else 0)"
    "rings s2 = (\<lambda>_. [])"
    by (auto simp: s2_def fun_eq_iff)
  have "test_run fmt
      (concat (map (\<lambda>t. replicate number_of_messages (Log t) @ replicate number_of_messages (Drain t))
         [0..<Suc k])) test_start = s2"
    by (simp add: test_run_append s_def s1_def s2_def)
  with s2 show ?case by simp
qed

lemma thread_by_thread_finished: "test_finished (test_run fmt thread_by_thread test_start)"
  using thread_by_thread_upto [of number_of_threads fmt]
  by (simp add: test_finished_def thread_by_thread_def list_all_iff)

theorem json_file_logging_witness:
  "test_finished (test_run plain_formatter thread_by_thread test_start)
 \<and> length (json_file (test_run plain_formatter thread_by_thread test_start)) = 3000
 \<and> length (text_file (test_run plain_formatter thread_by_thread test_start)) = 3000
 \<and> file_contains (json_file (test_run plain_formatter thread_by_thread test_start))
       (expected_json_string 5 499)
 \<and> file_contains (text_file (test_run plain_formatter thread_by_thread test_start))
       (expected_string 0 17)"
proof -
  have f: "test_finished (test_run plain_formatter thread_by_thread test_start)"
    by (rule thread_by_thread_finished)
  note t = json_file_logging [OF f]
  from t have 1: "length (json_file (test_run plain_formatter thread_by_thread test_start)) = 3000"
    "length (text_file (test_run plain_formatter thread_by_thread test_start)) = 3000"
    by blast+
  from t have "\<forall>t<6. \<forall>j<500.
             file_contains (json_file (test_run plain_formatter thread_by_thread test_start))
               (expected_json_string t j)
           \<and> file_contains (text_file (test_run plain_formatter thread_by_thread test_start))
               (expected_string t j)"
    by blast
  from this [rule_format, of 5 499] this [rule_format, of 0 17]
  have 2: "file_contains (json_file (test_run plain_formatter thread_by_thread test_start))
       (expected_json_string 5 499)"
    "file_contains (text_file (test_run plain_formatter thread_by_thread test_start))
       (expected_string 0 17)"
    by simp_all
  from f 1 2 show ?thesis by blast
qed

end
